theory Spec2Isabelle
  imports Main "HOL-Library.Word" "HOL-Library.Multiset" "HOL-Library.Sublist"
begin

unbundle bit_operations_syntax

section \<open>Data model shared by both variants\<close>

type_synonym uint8_t = "8 word"
type_synonym uint16_t = "16 word"
type_synonym uint32_t = "32 word"
type_synonym uint64_t = "64 word"

text \<open>
  \<^verbatim>\<open>struct node { uint32_t freq; uint8_t ch; struct node *left, *right; }\<close> of
  \<^verbatim>\<open>pqueue.h\<close>. A value of type \<open>node\<close> stands for a \<^verbatim>\<open>Node *\<close>: \<open>Null\<close> is the
  null pointer, \<open>Node f c l r\<close> a pointer to an allocated node. Trees are never mutated
  after \<^verbatim>\<open>newNode\<close> built them and no node is shared, so no store is needed. Allocation
  is assumed to succeed throughout. The first variant (\<^verbatim>\<open>huffman-00\<close>) has the same struct
  with the symbol called \<^verbatim>\<open>data\<close>; it is modelled by the same type.
\<close>

datatype node = Null | Node (freq: uint32_t) (ch: uint8_t) (left: node) (right: node)

definition newNode :: "uint8_t \<Rightarrow> uint32_t \<Rightarrow> node \<Rightarrow> node \<Rightarrow> node" where
  "newNode c f l r = Node f c l r"

definition MAXN :: nat where
  "MAXN = 256"

section \<open>pqueue.h: the binary min-heap\<close>

text \<open>
  \<^verbatim>\<open>typedef struct { Node **heap; int n; int maxN; } PQ\<close>. The heap array has
  \<open>maxN + 1\<close> slots, slot 0 is never used, slots \<open>1..n\<close> hold the queue. Slots that the
  C code leaves uninitialised hold \<open>Null\<close> here; they are never read.
\<close>

record PQ =
  pq_heap :: "node list"
  pq_n :: nat
  pq_maxN :: nat

definition PQinit :: "nat \<Rightarrow> PQ" where
  "PQinit m = \<lparr>pq_heap = replicate (m + 1) Null, pq_n = 0, pq_maxN = m\<rparr>"

text \<open>The percolate-up loop of \<^verbatim>\<open>PQinsert\<close>, from the slot \<open>k\<close> on.\<close>

fun percolate_up :: "node list \<Rightarrow> node \<Rightarrow> nat \<Rightarrow> node list" where
  "percolate_up h item k =
     (if k > 1 \<and> freq (h ! (k div 2)) > freq item
      then percolate_up (h[k := h ! (k div 2)]) item (k div 2)
      else h[k := item])"

declare percolate_up.simps [simp del]

definition PQinsert :: "PQ \<Rightarrow> node \<Rightarrow> PQ" where
  "PQinsert pq item =
     (if pq_n pq \<ge> pq_maxN pq then pq
      else let k = pq_n pq + 1
           in pq\<lparr>pq_n := k, pq_heap := percolate_up (pq_heap pq) item k\<rparr>)"

text \<open>
  The percolate-down loop of \<^verbatim>\<open>PQdelmin\<close>. The C loop starts at \<open>k = 1\<close> and \<open>k\<close> only
  grows; the conjunct \<open>0 < k\<close> states this so that the function is total.
\<close>

function percolate_down :: "node list \<Rightarrow> nat \<Rightarrow> node \<Rightarrow> nat \<Rightarrow> node list" where
  "percolate_down h m lst k =
     (if 0 < k \<and> 2 * k \<le> m
      then let j0 = 2 * k;
               j = (if j0 < m \<and> freq (h ! j0) > freq (h ! (j0 + 1)) then j0 + 1 else j0)
           in if freq lst \<le> freq (h ! j) then h[k := lst]
              else percolate_down (h[k := h ! j]) m lst j
      else h[k := lst])"
  by pat_completeness auto
termination
  by (relation "measure (\<lambda>(h, m, lst, k). Suc m - k)") (auto split: if_splits)

declare percolate_down.simps [simp del]

definition PQdelmin :: "PQ \<Rightarrow> node \<times> PQ" where
  "PQdelmin pq =
     (if pq_n pq = 0 then (Null, pq)
      else let mn = pq_heap pq ! 1;
               lst = pq_heap pq ! pq_n pq;
               m = pq_n pq - 1
           in if m = 0 then (mn, pq\<lparr>pq_n := m\<rparr>)
              else (mn, pq\<lparr>pq_n := m, pq_heap := percolate_down (pq_heap pq) m lst 1\<rparr>))"

section \<open>huffman-01: building the tree (enc.c and dec.c)\<close>

text \<open>
  A frequency table \<^verbatim>\<open>uint32_t freq[256]\<close> is a function from the byte that indexes it.
  \<open>insert_leaves\<close> is the first loop of \<^verbatim>\<open>buildHuffmanTree\<close>, \<open>merge_loop\<close> the
  \<^verbatim>\<open>while (symbols > 1)\<close> loop.
\<close>

type_synonym freq_table = "uint8_t \<Rightarrow> uint32_t"

definition insert_leaf :: "freq_table \<Rightarrow> nat \<Rightarrow> PQ \<times> nat \<Rightarrow> PQ \<times> nat" where
  "insert_leaf tbl i st =
     (if tbl (of_nat i) > 0
      then (PQinsert (fst st) (newNode (of_nat i) (tbl (of_nat i)) Null Null), snd st + 1)
      else st)"

definition insert_leaves :: "freq_table \<Rightarrow> PQ \<times> nat" where
  "insert_leaves tbl = fold (insert_leaf tbl) [0..<MAXN] (PQinit MAXN, 0)"

function merge_loop :: "PQ \<Rightarrow> nat \<Rightarrow> PQ" where
  "merge_loop pq symbols =
     (if symbols > 1
      then let (l, pq1) = PQdelmin pq;
               (r, pq2) = PQdelmin pq1;
               merged = newNode 0 (freq l + freq r) l r
           in merge_loop (PQinsert pq2 merged) (symbols - 1)
      else pq)"
  by pat_completeness auto
termination
  by (relation "measure (\<lambda>(pq, symbols). symbols)") auto

declare merge_loop.simps [simp del]

definition buildHuffmanTree :: "freq_table \<Rightarrow> node" where
  "buildHuffmanTree tbl =
     (let (pq, symbols) = insert_leaves tbl
      in if symbols = 0 then Null
         else if symbols = 1 then fst (PQdelmin pq)
         else fst (PQdelmin (merge_loop pq symbols)))"

section \<open>huffman-01/enc.c: the encoder\<close>

subsection \<open>Code table\<close>

text \<open>
  \<^verbatim>\<open>typedef struct { uint8_t *code; uint8_t len; } CodeEntry\<close>: \<open>ce_code\<close> is the
  block \<^verbatim>\<open>code\<close> points to (\<open>[]\<close> for the null pointer that \<^verbatim>\<open>memset\<close> leaves).
  \<^verbatim>\<open>CodeEntry codes[256]\<close> is a function from the byte that indexes it.
\<close>

record CodeEntry =
  ce_code :: "uint8_t list"
  ce_len :: uint8_t

type_synonym code_table = "uint8_t \<Rightarrow> CodeEntry"

text \<open>
  One round of the packing loop of \<^verbatim>\<open>generateCodes\<close>:
  \<^verbatim>\<open>if ((code >> (depth - 1 - i)) & 1) code[i / 8] |= (1 << (7 - (i % 8)))\<close>.
  The shift \<^verbatim>\<open>code >> k\<close> of a \<^verbatim>\<open>uint32_t\<close> is \<open>drop_bit k\<close> for \<open>k < 32\<close>. For \<open>k \<ge> 32\<close> (a
  leaf deeper than 32) C leaves it undefined; the program compiled for x86-64 shifts
  by a count held in a register, of which the processor uses the low five bits, and
  so does the model: the shift is by \<open>k mod 32\<close>.
\<close>

definition set_code_bit :: "uint32_t \<Rightarrow> nat \<Rightarrow> nat \<Rightarrow> uint8_t list \<Rightarrow> uint8_t list" where
  "set_code_bit code depth i bs =
     (if drop_bit ((depth - 1 - i) mod 32) code AND 1 \<noteq> 0
      then bs[i div 8 := (bs ! (i div 8)) OR push_bit (7 - i mod 8) 1]
      else bs)"

definition pack_code :: "uint32_t \<Rightarrow> nat \<Rightarrow> uint8_t list" where
  "pack_code code depth =
     fold (set_code_bit code depth) [0..<depth] (replicate ((depth + 7) div 8) 0)"

fun generateCodes :: "node \<Rightarrow> code_table \<Rightarrow> uint32_t \<Rightarrow> nat \<Rightarrow> code_table" where
  "generateCodes Null codes code depth = codes"
| "generateCodes (Node f c l r) codes code depth =
     (if l = Null \<and> r = Null
      then codes(c := \<lparr>ce_code = pack_code code depth, ce_len = of_nat depth\<rparr>)
      else let codes1 = (if l \<noteq> Null
                         then generateCodes l codes (push_bit 1 code) (depth + 1)
                         else codes)
           in if r \<noteq> Null
              then generateCodes r codes1 (push_bit 1 code OR 1) (depth + 1)
              else codes1)"

subsection \<open>Bit buffer\<close>

text \<open>
  \<^verbatim>\<open>BitBuffer\<close>: \<open>bb_data\<close> is the first \<^verbatim>\<open>size\<close> bytes of \<^verbatim>\<open>data\<close>, so \<^verbatim>\<open>size\<close> is its
  length. \<^verbatim>\<open>capacity\<close> and \<^verbatim>\<open>bitBufferEnsure\<close> only manage memory and are left out.
\<close>

record BitBuffer =
  bb_data :: "uint8_t list"
  bb_bit_buffer :: uint8_t
  bb_bits_used :: uint8_t

definition bitBufferInit :: "nat \<Rightarrow> BitBuffer" where
  "bitBufferInit initial_size = \<lparr>bb_data = [], bb_bit_buffer = 0, bb_bits_used = 0\<rparr>"

definition write_bit :: "uint32_t \<Rightarrow> nat \<Rightarrow> BitBuffer \<Rightarrow> BitBuffer" where
  "write_bit bits i buf =
     (let b = buf\<lparr>bb_bit_buffer := push_bit 1 (bb_bit_buffer buf) OR ucast (drop_bit i bits AND 1),
                  bb_bits_used := bb_bits_used buf + 1\<rparr>
      in if bb_bits_used b = 8
         then b\<lparr>bb_data := bb_data b @ [bb_bit_buffer b], bb_bit_buffer := 0, bb_bits_used := 0\<rparr>
         else b)"

definition bitBufferWriteBits :: "BitBuffer \<Rightarrow> uint32_t \<Rightarrow> nat \<Rightarrow> BitBuffer" where
  "bitBufferWriteBits buf bits cnt = fold (write_bit bits) (rev [0..<cnt]) buf"

definition bitBufferFlush :: "BitBuffer \<Rightarrow> BitBuffer" where
  "bitBufferFlush buf =
     (if bb_bits_used buf > 0
      then let b = buf\<lparr>bb_bit_buffer := push_bit (8 - unat (bb_bits_used buf)) (bb_bit_buffer buf)\<rparr>
           in b\<lparr>bb_data := bb_data b @ [bb_bit_buffer b]\<rparr>
      else buf)"

subsection \<open>CRC32\<close>

definition crc32_step :: "uint32_t \<Rightarrow> uint32_t" where
  "crc32_step crc = (if crc AND 1 \<noteq> 0 then drop_bit 1 crc XOR 0xEDB88320 else drop_bit 1 crc)"

text \<open>The entry \<open>i\<close> of the table \<^verbatim>\<open>init_crc32\<close> fills.\<close>

definition crc32_table :: "uint32_t \<Rightarrow> uint32_t" where
  "crc32_table i = (crc32_step ^^ 8) i"

text \<open>The body of the loop of \<^verbatim>\<open>crc32\<close>.\<close>

definition crc32_update :: "uint8_t \<Rightarrow> uint32_t \<Rightarrow> uint32_t" where
  "crc32_update b crc = crc32_table ((crc XOR ucast b) AND 0xFF) XOR drop_bit 8 crc"

definition crc32 :: "uint8_t list \<Rightarrow> uint32_t" where
  "crc32 dat = fold crc32_update dat 0xFFFFFFFF XOR 0xFFFFFFFF"

subsection \<open>Frequency table and compression\<close>

definition buildFreqTable :: "uint8_t list \<Rightarrow> freq_table" where
  "buildFreqTable dat = fold (\<lambda>b tbl. tbl(b := tbl b + 1)) dat (\<lambda>_. 0)"

text \<open>\<^verbatim>\<open>(entry->code[bit / 8] >> (7 - bit % 8)) & 1\<close>\<close>

definition code_bit :: "CodeEntry \<Rightarrow> nat \<Rightarrow> uint32_t" where
  "code_bit entry b = ucast (drop_bit (7 - b mod 8) (ce_code entry ! (b div 8)) AND 1)"

definition write_code :: "CodeEntry \<Rightarrow> BitBuffer \<Rightarrow> BitBuffer" where
  "write_code entry buf =
     fold (\<lambda>b bf. bitBufferWriteBits bf (code_bit entry b) 1) [0..<unat (ce_len entry)] buf"

fun compress_loop :: "uint8_t list \<Rightarrow> code_table \<Rightarrow> BitBuffer \<Rightarrow> BitBuffer option" where
  "compress_loop [] codes buf = Some buf"
| "compress_loop (d # ds) codes buf =
     (if ce_len (codes d) = 0 then None
      else compress_loop ds codes (write_code (codes d) buf))"

definition compress :: "uint8_t list \<Rightarrow> code_table \<Rightarrow> BitBuffer option" where
  "compress dat codes =
     (case compress_loop dat codes (bitBufferInit (length dat)) of
        None \<Rightarrow> None
      | Some buf \<Rightarrow> Some (bitBufferFlush buf))"

subsection \<open>Container\<close>

text \<open>
  \<^verbatim>\<open>HuffHeader\<close> is a packed struct that \<^verbatim>\<open>fwrite\<close> copies to the file as it lies in
  memory: 30 bytes, every field least significant byte first on the little-endian
  machines the program is built for (the layout the specification tabulates).
\<close>

record HuffHeader =
  h_magic :: uint32_t
  h_version :: uint16_t
  h_original_size :: uint64_t
  h_compressed_size :: uint64_t
  h_checksum :: uint32_t
  h_tree_size :: uint16_t
  h_padding_bits :: uint8_t
  h_reserved :: uint8_t

definition MAGIC_NUMBER :: uint32_t where
  "MAGIC_NUMBER = 0x48554646"

definition VERSION :: uint16_t where
  "VERSION = 1"

fun le_bytes :: "nat \<Rightarrow> 'a::len word \<Rightarrow> uint8_t list" where
  "le_bytes 0 w = []"
| "le_bytes (Suc k) w = ucast w # le_bytes k (drop_bit 8 w)"

fun from_le :: "uint8_t list \<Rightarrow> 'a::len word" where
  "from_le [] = 0"
| "from_le (b # bs) = ucast b OR push_bit 8 (from_le bs)"

definition writeHeader :: "HuffHeader \<Rightarrow> uint8_t list" where
  "writeHeader h =
     le_bytes 4 (h_magic h) @ le_bytes 2 (h_version h) @ le_bytes 8 (h_original_size h) @
     le_bytes 8 (h_compressed_size h) @ le_bytes 4 (h_checksum h) @ le_bytes 2 (h_tree_size h) @
     [h_padding_bits h, h_reserved h]"

text \<open>
  \<^verbatim>\<open>writeFreqTable\<close>: the bytes written and the count returned. Writing to the file is
  assumed to succeed.
\<close>

definition write_entry :: "freq_table \<Rightarrow> nat \<Rightarrow> uint8_t list \<times> uint16_t \<Rightarrow> uint8_t list \<times> uint16_t" where
  "write_entry tbl i st =
     (if tbl (of_nat i) > 0
      then (fst st @ of_nat i # le_bytes 4 (tbl (of_nat i)), snd st + 1)
      else st)"

definition writeFreqTable :: "freq_table \<Rightarrow> uint8_t list \<times> uint16_t" where
  "writeFreqTable tbl = fold (write_entry tbl) [0..<MAXN] ([], 0)"

subsection \<open>The encoder's main\<close>

datatype enc_error = EmptyInput | TreeBuildFailed | CompressionFailed | FreqTableWriteFailed

definition no_codes :: code_table where
  "no_codes = (\<lambda>_. \<lparr>ce_code = [], ce_len = 0\<rparr>)"

text \<open>The code table \<^verbatim>\<open>main\<close> fills for a tree \<open>root \<noteq> Null\<close> (lines 365-376).\<close>

definition make_codes :: "node \<Rightarrow> code_table" where
  "make_codes root =
     (if left root \<noteq> Null \<or> right root \<noteq> Null
      then generateCodes root no_codes 0 0
      else no_codes(ch root := \<lparr>ce_code = [0], ce_len = 1\<rparr>))"

text \<open>
  \<^verbatim>\<open>main\<close> from the moment the input file is in memory: \<open>dat\<close> is the content of the
  input file, \<^verbatim>\<open>file_size\<close> its length, the result the content of the output file, or
  the error \<^verbatim>\<open>main\<close> stops with (exit status 1).
\<close>

definition encode :: "uint8_t list \<Rightarrow> enc_error + uint8_t list" where
  "encode dat =
     (if length dat \<le> 0 then Inl EmptyInput
      else let tbl = buildFreqTable dat;
               root = buildHuffmanTree tbl
           in if root = Null then Inl TreeBuildFailed
              else case compress dat (make_codes root) of
                     None \<Rightarrow> Inl CompressionFailed
                   | Some compressed \<Rightarrow>
                       let header = \<lparr>h_magic = MAGIC_NUMBER, h_version = VERSION,
                                     h_original_size = of_nat (length dat),
                                     h_compressed_size = of_nat (length (bb_data compressed)),
                                     h_checksum = crc32 dat,
                                     h_tree_size = 0,
                                     h_padding_bits = (if bb_bits_used compressed > 0
                                                       then 8 - bb_bits_used compressed else 0),
                                     h_reserved = 0\<rparr>;
                           (table, tree_size) = writeFreqTable tbl
                       in if tree_size = 0 then Inl FreqTableWriteFailed
                          else Inr (writeHeader (header\<lparr>h_tree_size := tree_size\<rparr>) @ table @
                                    bb_data compressed))"

section \<open>huffman-01/dec.c: the decoder\<close>

subsection \<open>Bit reader\<close>

text \<open>\<^verbatim>\<open>BitReader\<close>: \<^verbatim>\<open>size\<close> is the length of \<open>br_data\<close>.\<close>

record BitReader =
  br_data :: "uint8_t list"
  br_pos :: nat
  br_bit_buffer :: uint8_t
  br_bits_available :: uint8_t

definition bitReaderInit :: "uint8_t list \<Rightarrow> BitReader" where
  "bitReaderInit dat = \<lparr>br_data = dat, br_pos = 0, br_bit_buffer = 0, br_bits_available = 0\<rparr>"

definition take_top_bit :: "BitReader \<Rightarrow> int \<times> BitReader" where
  "take_top_bit reader =
     (uint (drop_bit 7 (br_bit_buffer reader) AND 1),
      reader\<lparr>br_bit_buffer := push_bit 1 (br_bit_buffer reader),
             br_bits_available := br_bits_available reader - 1\<rparr>)"

definition bitReaderReadBit :: "BitReader \<Rightarrow> int \<times> BitReader" where
  "bitReaderReadBit reader =
     (if br_bits_available reader = 0
      then if br_pos reader \<ge> length (br_data reader) then (- 1, reader)
           else take_top_bit (reader\<lparr>br_bit_buffer := br_data reader ! br_pos reader,
                                      br_pos := br_pos reader + 1,
                                      br_bits_available := 8\<rparr>)
      else take_top_bit reader)"

subsection \<open>Reading the container\<close>

datatype dec_error =
    FileTooSmall | NotHuffmanFile | UnsupportedVersion | FreqTableReadFailed
  | CompressedDataReadFailed | TreeRebuildFailed | DecompressionFailed | ChecksumFailed

definition HEADER_SIZE :: nat where
  "HEADER_SIZE = 30"

text \<open>
  The header that \<^verbatim>\<open>fread(header, sizeof(HuffHeader), 1, fp)\<close> finds in the first 30
  bytes of the file.
\<close>

definition parseHeader :: "uint8_t list \<Rightarrow> HuffHeader" where
  "parseHeader bs =
     \<lparr>h_magic = from_le (take 4 bs),
      h_version = from_le (take 2 (drop 4 bs)),
      h_original_size = from_le (take 8 (drop 6 bs)),
      h_compressed_size = from_le (take 8 (drop 14 bs)),
      h_checksum = from_le (take 4 (drop 22 bs)),
      h_tree_size = from_le (take 2 (drop 26 bs)),
      h_padding_bits = bs ! 28,
      h_reserved = bs ! 29\<rparr>"

text \<open>
  \<^verbatim>\<open>readHeader\<close>: the header and the rest of the file, or the reason for returning 0.
  The first error stands for a file that ends inside the header.
\<close>

definition readHeader :: "uint8_t list \<Rightarrow> dec_error + HuffHeader \<times> uint8_t list" where
  "readHeader file =
     (if length file < HEADER_SIZE then Inl FileTooSmall
      else let header = parseHeader file
           in if h_magic header \<noteq> MAGIC_NUMBER then Inl NotHuffmanFile
              else if h_version header > 1 then Inl UnsupportedVersion
              else Inr (header, drop HEADER_SIZE file))"

text \<open>
  \<^verbatim>\<open>readFreqTable\<close>: \<open>k\<close> entries are still to be read from \<open>file\<close>; \<open>None\<close> when
  the file ends inside an entry.
\<close>

fun read_entries :: "nat \<Rightarrow> uint8_t list \<Rightarrow> freq_table \<Rightarrow> (freq_table \<times> uint8_t list) option" where
  "read_entries 0 file tbl = Some (tbl, file)"
| "read_entries (Suc k) file tbl =
     (if length file < 5 then None
      else read_entries k (drop 5 file) (tbl(hd file := from_le (take 4 (tl file)))))"

definition readFreqTable :: "uint8_t list \<Rightarrow> uint16_t \<Rightarrow> (freq_table \<times> uint8_t list) option" where
  "readFreqTable file tree_size = read_entries (unat tree_size) file (\<lambda>_. 0)"

subsection \<open>Decompression\<close>

text \<open>
  \<^verbatim>\<open>decompress\<close>. \<open>None\<close> is the null pointer it returns on failure. The output block
  comes from \<^verbatim>\<open>malloc\<close>, which may fail and does not initialise the block: for an
  allocator \<open>mem\<close>, \<open>mem n\<close> is \<open>None\<close> when \<^verbatim>\<open>malloc(n)\<close> returns a null pointer, and
  \<open>Some block\<close> otherwise, where \<open>block i\<close> is the byte the block holds at offset \<open>i\<close>
  when it is handed out. \<^verbatim>\<open>size_t\<close> is 64 bits wide.
\<close>

type_synonym allocator = "nat \<Rightarrow> (nat \<Rightarrow> uint8_t) option"

definition within_padding :: "BitReader \<Rightarrow> uint8_t \<Rightarrow> bool" where
  "within_padding reader padding_bits =
     (let bits_processed = (of_nat (br_pos reader) - 1) * 8 + (8 - ucast (br_bits_available reader));
          total_bits = of_nat (length (br_data reader)) * (8 :: uint64_t)
      in total_bits - bits_processed \<le> ucast padding_bits)"

definition bits_left :: "BitReader \<Rightarrow> nat" where
  "bits_left reader =
     8 * (length (br_data reader) - br_pos reader) + unat (br_bits_available reader)"

function decompress_loop ::
  "BitReader \<Rightarrow> node \<Rightarrow> node \<Rightarrow> nat \<Rightarrow> uint8_t list \<Rightarrow> uint64_t \<Rightarrow> uint8_t \<Rightarrow> uint8_t list option" where
  "decompress_loop reader root current output_pos output original_size padding_bits =
     (if output_pos < unat original_size
      then let (b, reader') = bitReaderReadBit reader
           in if b < 0
              then (if within_padding reader' padding_bits then Some output else None)
              else let current' = (if b = 0 then left current else right current)
                   in if current' = Null then None
                      else if left current' = Null \<and> right current' = Null
                      then (if output_pos \<ge> unat original_size then Some output
                            else decompress_loop reader' root root (output_pos + 1)
                                   (output[output_pos := ch current']) original_size padding_bits)
                      else decompress_loop reader' root current' output_pos output
                             original_size padding_bits
      else Some output)"
  by pat_completeness auto
termination
proof (relation "measure (\<lambda>(reader, root, current, output_pos, output, original_size, padding_bits).
                    bits_left reader)")
  have dec: "bits_left r' < bits_left r"
    if "(b, r') = bitReaderReadBit r" and "\<not> b < 0" for b r r'
  proof (cases "br_bits_available r = 0")
    case True
    with that have p: "br_pos r < length (br_data r)"
      by (auto simp: bitReaderReadBit_def split: if_splits)
    with that True show ?thesis
      by (auto simp: bitReaderReadBit_def take_top_bit_def bits_left_def)
  next
    case False
    then have "unat (br_bits_available r - 1) < unat (br_bits_available r)"
      by (simp add: unat_minus_one unat_gt_0)
    with that False show ?thesis
      by (auto simp: bitReaderReadBit_def take_top_bit_def bits_left_def)
  qed
  show "wf (measure (\<lambda>(reader, root, current, output_pos, output, original_size, padding_bits).
                    bits_left reader))"
    by simp
  show "\<And>reader root current output_pos output original_size padding_bits x xa y xb.
       output_pos < unat original_size \<Longrightarrow> x = bitReaderReadBit reader \<Longrightarrow> (xa, y) = x \<Longrightarrow>
       \<not> xa < 0 \<Longrightarrow> xb = (if xa = 0 then left current else right current) \<Longrightarrow> xb \<noteq> Null \<Longrightarrow>
       left xb = Null \<and> right xb = Null \<Longrightarrow> \<not> unat original_size \<le> output_pos \<Longrightarrow>
       ((y, root, root, output_pos + 1, output[output_pos := ch xb], original_size, padding_bits),
        reader, root, current, output_pos, output, original_size, padding_bits)
       \<in> measure (\<lambda>(reader, root, current, output_pos, output, original_size, padding_bits).
                    bits_left reader)"
    using dec by simp
  show "\<And>reader root current output_pos output original_size padding_bits x xa y xb.
       output_pos < unat original_size \<Longrightarrow> x = bitReaderReadBit reader \<Longrightarrow> (xa, y) = x \<Longrightarrow>
       \<not> xa < 0 \<Longrightarrow> xb = (if xa = 0 then left current else right current) \<Longrightarrow> xb \<noteq> Null \<Longrightarrow>
       \<not> (left xb = Null \<and> right xb = Null) \<Longrightarrow>
       ((y, root, xb, output_pos, output, original_size, padding_bits),
        reader, root, current, output_pos, output, original_size, padding_bits)
       \<in> measure (\<lambda>(reader, root, current, output_pos, output, original_size, padding_bits).
                    bits_left reader)"
    using dec by simp
qed

declare decompress_loop.simps [simp del]

definition decompress ::
  "allocator \<Rightarrow> BitReader \<Rightarrow> node \<Rightarrow> uint64_t \<Rightarrow> uint8_t \<Rightarrow> uint8_t list option" where
  "decompress mem reader root original_size padding_bits =
     (if root = Null \<or> original_size = 0 then None
      else case mem (unat original_size) of
             None \<Rightarrow> None
           | Some block \<Rightarrow>
               let output = map block [0..<unat original_size]
               in if left root = Null \<and> right root = Null
                  then Some (fold (\<lambda>i out. out[i := ch root]) [0..<unat original_size] output)
                  else decompress_loop reader root root 0 output original_size padding_bits)"

subsection \<open>The decoder's main\<close>

text \<open>
  \<^verbatim>\<open>main\<close> from the moment the compressed file is opened: \<open>file\<close> is its content,
  \<open>verify\<close> is off under \<^verbatim>\<open>--no-verify\<close>; the result is the content of the output
  file, or the error \<^verbatim>\<open>main\<close> stops with (exit status 1, no output file written).
  \<open>read_container\<close> is the part up to the end of the input (lines 314-358): header,
  frequency table and the \<^verbatim>\<open>compressed_size\<close> bytes that follow it.
\<close>

definition read_container ::
  "uint8_t list \<Rightarrow> dec_error + HuffHeader \<times> freq_table \<times> uint8_t list" where
  "read_container file =
     (if length file \<le> HEADER_SIZE then Inl FileTooSmall
      else case readHeader file of
             Inl e \<Rightarrow> Inl e
           | Inr (header, rest) \<Rightarrow>
               (case readFreqTable rest (h_tree_size header) of
                  None \<Rightarrow> Inl FreqTableReadFailed
                | Some (tbl, rest') \<Rightarrow>
                    if length rest' < unat (h_compressed_size header)
                    then Inl CompressedDataReadFailed
                    else Inr (header, tbl, take (unat (h_compressed_size header)) rest')))"

definition decode :: "bool \<Rightarrow> allocator \<Rightarrow> uint8_t list \<Rightarrow> dec_error + uint8_t list" where
  "decode verify mem file =
     (case read_container file of
        Inl e \<Rightarrow> Inl e
      | Inr (header, tbl, compressed_data) \<Rightarrow>
          let root = buildHuffmanTree tbl
          in if root = Null then Inl TreeRebuildFailed
             else case decompress mem (bitReaderInit compressed_data) root
                         (h_original_size header) (h_padding_bits header) of
                    None \<Rightarrow> Inl DecompressionFailed
                  | Some decompressed \<Rightarrow>
                      if verify \<and> crc32 decompressed \<noteq> h_checksum header
                      then Inl ChecksumFailed
                      else Inr decompressed)"

text \<open>
  The kinds of error the specification calls a format error: bad magic, bad version,
  truncated header or table.
\<close>

definition FormatError :: "dec_error \<Rightarrow> bool" where
  "FormatError e = (e = FileTooSmall \<or> e = NotHuffmanFile \<or> e = UnsupportedVersion \<or>
                    e = FreqTableReadFailed)"

text \<open>Encoding a buffer and decoding the container, when both succeed.\<close>

definition roundtrip :: "bool \<Rightarrow> allocator \<Rightarrow> uint8_t list \<Rightarrow> uint8_t list option" where
  "roundtrip verify mem dat =
     (case encode dat of
        Inl e \<Rightarrow> None
      | Inr file \<Rightarrow> (case decode verify mem file of Inl e \<Rightarrow> None | Inr out \<Rightarrow> Some out))"

section \<open>huffman-00: the first variant (enc.c and dec.c)\<close>

text \<open>
  The first variant has its own heap, with slot 0 in use, and its own
  \<^verbatim>\<open>buildHuffmanTree\<close>; the same text stands in enc.c and in dec.c. Its
  \<^verbatim>\<open>struct Node { char data; unsigned freq; struct Node *left, *right; }\<close> is modelled by
  \<open>node\<close>, with \<open>ch\<close> for \<^verbatim>\<open>data\<close>. \<^verbatim>\<open>unsigned size\<close> is a natural number: it stays
  between 0 and 256 and the code never subtracts from 0 on the paths that
  \<^verbatim>\<open>buildHuffmanTree\<close> takes.
\<close>

record MinHeap =
  mh_size :: nat
  mh_capacity :: nat
  mh_array :: "node list"

definition newNode00 :: "uint8_t \<Rightarrow> uint32_t \<Rightarrow> node" where
  "newNode00 d f = Node f d Null Null"

definition createMinHeap :: "nat \<Rightarrow> MinHeap" where
  "createMinHeap cap = \<lparr>mh_size = 0, mh_capacity = cap, mh_array = replicate cap Null\<rparr>"

definition swapNodes :: "node list \<Rightarrow> nat \<Rightarrow> nat \<Rightarrow> node list" where
  "swapNodes arr a b = arr[a := arr ! b, b := arr ! a]"

definition smallest_of :: "MinHeap \<Rightarrow> nat \<Rightarrow> nat" where
  "smallest_of h idx =
     (let l = 2 * idx + 1;
          r = 2 * idx + 2;
          s = (if l < mh_size h \<and> freq (mh_array h ! l) < freq (mh_array h ! idx) then l else idx)
      in if r < mh_size h \<and> freq (mh_array h ! r) < freq (mh_array h ! s) then r else s)"

function minHeapify :: "MinHeap \<Rightarrow> nat \<Rightarrow> MinHeap" where
  "minHeapify h idx =
     (if smallest_of h idx \<noteq> idx
      then minHeapify (h\<lparr>mh_array := swapNodes (mh_array h) (smallest_of h idx) idx\<rparr>)
             (smallest_of h idx)
      else h)"
  by pat_completeness auto
termination
  by (relation "measure (\<lambda>(h, idx). mh_size h - idx)")
     (auto simp: smallest_of_def Let_def split: if_splits)

declare minHeapify.simps [simp del]

definition extractMin :: "MinHeap \<Rightarrow> node \<times> MinHeap" where
  "extractMin h =
     (let temp = mh_array h ! 0;
          h1 = h\<lparr>mh_array := (mh_array h)[0 := mh_array h ! (mh_size h - 1)]\<rparr>;
          h2 = h1\<lparr>mh_size := mh_size h1 - 1\<rparr>
      in (temp, minHeapify h2 0))"

text \<open>The loop of \<^verbatim>\<open>insertMinHeap\<close>, from the index \<open>i\<close> on.\<close>

function sift_up :: "node list \<Rightarrow> node \<Rightarrow> nat \<Rightarrow> node list" where
  "sift_up arr nd i =
     (if i \<noteq> 0 \<and> freq nd < freq (arr ! ((i - 1) div 2))
      then sift_up (arr[i := arr ! ((i - 1) div 2)]) nd ((i - 1) div 2)
      else arr[i := nd])"
  by pat_completeness auto
termination
  by (relation "measure (\<lambda>(arr, nd, i). i)") auto

declare sift_up.simps [simp del]

definition insertMinHeap :: "MinHeap \<Rightarrow> node \<Rightarrow> MinHeap" where
  "insertMinHeap h nd =
     (let h1 = h\<lparr>mh_size := mh_size h + 1\<rparr>
      in h1\<lparr>mh_array := sift_up (mh_array h1) nd (mh_size h1 - 1)\<rparr>)"

text \<open>
  \<^verbatim>\<open>buildMinHeap\<close>: \<^verbatim>\<open>for (i = (n - 1) / 2; i >= 0; --i) minHeapify(minHeap, i)\<close>
  with \<^verbatim>\<open>n = size - 1\<close>; it is called with \<^verbatim>\<open>size\<close> at least 2.
\<close>

definition buildMinHeap :: "MinHeap \<Rightarrow> MinHeap" where
  "buildMinHeap h =
     (let m = mh_size h - 1
      in fold (\<lambda>i hp. minHeapify hp i) (rev [0..<(m - 1) div 2 + 1]) h)"

definition fill_leaf :: "freq_table \<Rightarrow> nat \<Rightarrow> MinHeap \<Rightarrow> MinHeap" where
  "fill_leaf tbl i h =
     (if tbl (of_nat i) > 0
      then h\<lparr>mh_array := (mh_array h)[mh_size h := newNode00 (of_nat i) (tbl (of_nat i))],
             mh_size := mh_size h + 1\<rparr>
      else h)"

text \<open>One round of \<^verbatim>\<open>while (minHeap->size != 1)\<close>.\<close>

definition merge_step :: "MinHeap \<Rightarrow> MinHeap" where
  "merge_step h =
     (let (l, h1) = extractMin h;
          (r, h2) = extractMin h1;
          top = Node (freq l + freq r) 36 l r
      in insertMinHeap h2 top)"

function merge_all :: "MinHeap \<Rightarrow> MinHeap" where
  "merge_all h = (if mh_size h \<noteq> 1 then merge_all (merge_step h) else h)"
  by pat_completeness auto
termination
proof (relation "measure (\<lambda>h. if mh_size h = 0 then 2 else mh_size h)")
  show "wf (measure (\<lambda>h. if mh_size h = 0 then 2 else mh_size h))"
    by simp
  have heapify: "mh_size (minHeapify h i) = mh_size h" for h i
    by (induction h i rule: minHeapify.induct) (subst minHeapify.simps, simp)
  have "mh_size (merge_step h) = mh_size h - 1 - 1 + 1" for h
    by (simp add: merge_step_def extractMin_def insertMinHeap_def Let_def heapify
             split: prod.splits)
  then show "\<And>h. mh_size h \<noteq> 1 \<Longrightarrow>
      (merge_step h, h) \<in> measure (\<lambda>h. if mh_size h = 0 then 2 else mh_size h)"
    by auto
qed

declare merge_all.simps [simp del]

text \<open>\<^verbatim>\<open>'$'\<close> is the byte 36.\<close>

definition buildHuffmanTree00 :: "freq_table \<Rightarrow> node" where
  "buildHuffmanTree00 tbl =
     (let h = fold (fill_leaf tbl) [0..<256] (createMinHeap 256)
      in if mh_size h = 0 then newNode00 36 0
         else if mh_size h = 1
         then Node (freq (mh_array h ! 0)) 36 (mh_array h ! 0) Null
         else fst (extractMin (merge_all (buildMinHeap h))))"

subsection \<open>huffman-00/dec.c: decodeFile\<close>

text \<open>
  How \<^verbatim>\<open>decodeFile\<close> ends: it returns (and \<^verbatim>\<open>main\<close> prints "Decoding complete." and
  returns 0), after an error message or without one, or it calls \<^verbatim>\<open>exit(1)\<close>.
\<close>

datatype dec00_status = Returned | ReturnedAfterError | Exit1

text \<open>
  The \<^verbatim>\<open>for (i = 7; i >= 0; i--)\<close> loop over the bits of the byte \<open>c\<close>, with \<open>k\<close> bits
  to go. The result is the error flag (the walk reached a null pointer), the current
  node, \<^verbatim>\<open>decoded_count\<close> and the bytes written to the output file so far.
\<close>

fun decode_bits00 ::
  "nat \<Rightarrow> uint8_t \<Rightarrow> node \<Rightarrow> node \<Rightarrow> int \<Rightarrow> int \<Rightarrow> uint8_t list \<Rightarrow> bool \<times> node \<times> int \<times> uint8_t list" where
  "decode_bits00 0 c root current decoded_count original_file_size out =
     (False, current, decoded_count, out)"
| "decode_bits00 (Suc i) c root current decoded_count original_file_size out =
     (if decoded_count \<ge> original_file_size then (False, current, decoded_count, out)
      else let current' = (if \<not> bit c i then left current else right current)
           in if current' = Null then (True, current', decoded_count, out)
              else if left current' = Null \<and> right current' = Null
              then decode_bits00 i c root root (decoded_count + 1) original_file_size
                     (out @ [ch current'])
              else decode_bits00 i c root current' decoded_count original_file_size out)"

fun decode_bytes00 ::
  "uint8_t list \<Rightarrow> node \<Rightarrow> node \<Rightarrow> int \<Rightarrow> int \<Rightarrow> uint8_t list \<Rightarrow> bool \<times> uint8_t list" where
  "decode_bytes00 [] root current decoded_count original_file_size out = (False, out)"
| "decode_bytes00 (c # cs) root current decoded_count original_file_size out =
     (if decoded_count < original_file_size
      then case decode_bits00 8 c root current decoded_count original_file_size out of
             (True, current', decoded_count', out') \<Rightarrow> (True, out')
           | (False, current', decoded_count', out') \<Rightarrow>
               decode_bytes00 cs root current' decoded_count' original_file_size out'
      else (False, out))"

text \<open>
  The header of the first variant: \<^verbatim>\<open>long original_file_size\<close> (8 bytes) and
  \<^verbatim>\<open>unsigned freq[256]\<close> (1024 bytes), as they lie in memory.
\<close>

definition read_table00 :: "uint8_t list \<Rightarrow> freq_table" where
  "read_table00 bs = (\<lambda>c. from_le (take 4 (drop (4 * unat c) bs)))"

text \<open>
  \<^verbatim>\<open>decodeFile\<close>: how it ends and the content of the output file (\<open>None\<close> when the
  output file was never opened).
\<close>

definition decodeFile00 :: "uint8_t list \<Rightarrow> dec00_status \<times> uint8_t list option" where
  "decodeFile00 file =
     (if length file < 8 then (Exit1, None)
      else if length (drop 8 file) < 1024 then (Exit1, None)
      else let original_file_size = sint (from_le (take 8 file) :: uint64_t);
               tbl = read_table00 (take 1024 (drop 8 file));
               root = buildHuffmanTree00 tbl
           in if root = Null \<or> (left root = Null \<and> right root = Null \<and> freq root = 0)
              then (Returned,
                    Some (if original_file_size > 0 \<and> root \<noteq> Null \<and> freq root > 0
                          then replicate (nat original_file_size) (ch root) else []))
              else case decode_bytes00 (drop 1032 file) root root 0 original_file_size [] of
                     (True, out) \<Rightarrow> (ReturnedAfterError, Some out)
                   | (False, out) \<Rightarrow> (Returned, Some out))"

section \<open>Notions used to state the properties\<close>

text \<open>
  The pointers a heap array holds at the indices in \<open>S\<close>, as a multiset; the content
  of a queue; the shape \<^verbatim>\<open>PQinit\<close> establishes and the queue operations keep.
\<close>

definition slots :: "node list \<Rightarrow> nat set \<Rightarrow> node multiset" where
  "slots h S = image_mset ((!) h) (mset_set S)"

definition pq_mset :: "PQ \<Rightarrow> node multiset" where
  "pq_mset pq = slots (pq_heap pq) {1..pq_n pq}"

definition pq_wf :: "PQ \<Rightarrow> bool" where
  "pq_wf pq = (pq_n pq \<le> pq_maxN pq \<and> length (pq_heap pq) = pq_maxN pq + 1)"

text \<open>
  A node is a leaf when both children are null (the test the C code makes). A tree is
  strict when no node has exactly one child. \<open>leaf_syms\<close> lists the symbols at the
  leaves from left to right, \<open>height\<close> is the number of edges on the longest path from
  the root to a leaf.
\<close>

definition is_leaf :: "node \<Rightarrow> bool" where
  "is_leaf t = (t \<noteq> Null \<and> left t = Null \<and> right t = Null)"

fun strict :: "node \<Rightarrow> bool" where
  "strict Null = True"
| "strict (Node f c l r) = ((l = Null \<longleftrightarrow> r = Null) \<and> strict l \<and> strict r)"

fun leaf_syms :: "node \<Rightarrow> uint8_t list" where
  "leaf_syms Null = []"
| "leaf_syms (Node f c l r) = (if l = Null \<and> r = Null then [c] else leaf_syms l @ leaf_syms r)"

fun height :: "node \<Rightarrow> nat" where
  "height Null = 0"
| "height (Node f c l r) = (if l = Null \<and> r = Null then 0 else 1 + max (height l) (height r))"

text \<open>The symbols with a nonzero count, in the order the loops over \<open>0..255\<close> meet them.\<close>

definition symbols_of :: "freq_table \<Rightarrow> uint8_t list" where
  "symbols_of tbl = filter (\<lambda>c. tbl c > 0) (map of_nat [0..<MAXN])"

text \<open>The leaf \<^verbatim>\<open>newNode(i, freq[i], NULL, NULL)\<close> for the symbol \<open>c\<close>.\<close>

definition leaf_of :: "freq_table \<Rightarrow> uint8_t \<Rightarrow> node" where
  "leaf_of tbl c = Node (tbl c) c Null Null"

text \<open>The leaf symbols of all the trees of a multiset together.\<close>

definition all_leaves :: "node multiset \<Rightarrow> uint8_t multiset" where
  "all_leaves M = sum_mset (image_mset (\<lambda>t. mset (leaf_syms t)) M)"

text \<open>The five bytes of a \<^verbatim>\<open>FreqEntry\<close> for the symbol \<open>c\<close>.\<close>

definition entry_bytes :: "freq_table \<Rightarrow> uint8_t \<Rightarrow> uint8_t list" where
  "entry_bytes tbl c = c # le_bytes 4 (tbl c)"

text \<open>
  Bit strings. \<open>bits_of w k\<close> is the low \<open>k\<close> bits of \<open>w\<close>, most significant first;
  \<open>bytes_bits\<close> reads a byte sequence as the bit stream it packs. \<open>bb_bits\<close> is
  everything written to a \<^verbatim>\<open>BitBuffer\<close> so far (the bytes stored and the bits
  pending in \<^verbatim>\<open>bit_buffer\<close>), \<open>br_bits\<close> everything a \<^verbatim>\<open>BitReader\<close> has still to
  deliver, \<open>entry_bits\<close> the bits \<^verbatim>\<open>compress\<close> reads off a code entry.
\<close>

definition bits_of :: "'a::len word \<Rightarrow> nat \<Rightarrow> bool list" where
  "bits_of w k = map (\<lambda>j. bit w (k - 1 - j)) [0..<k]"

definition bytes_bits :: "uint8_t list \<Rightarrow> bool list" where
  "bytes_bits bs = concat (map (\<lambda>b. bits_of b 8) bs)"

definition bb_bits :: "BitBuffer \<Rightarrow> bool list" where
  "bb_bits buf = bytes_bits (bb_data buf) @ bits_of (bb_bit_buffer buf) (unat (bb_bits_used buf))"

definition br_bits :: "BitReader \<Rightarrow> bool list" where
  "br_bits reader =
     take (unat (br_bits_available reader)) (bits_of (br_bit_buffer reader) 8) @
     bytes_bits (drop (br_pos reader) (br_data reader))"

definition entry_bits :: "CodeEntry \<Rightarrow> bool list" where
  "entry_bits e = map (\<lambda>b. code_bit e b \<noteq> 0) [0..<unat (ce_len e)]"

text \<open>
  The path from the root of \<open>t\<close> to the leaf that carries \<open>s\<close>: \<open>False\<close> for a step
  to the left child, \<open>True\<close> for a step to the right child.
\<close>

fun path_to :: "node \<Rightarrow> uint8_t \<Rightarrow> bool list" where
  "path_to Null s = []"
| "path_to (Node f c l r) s =
     (if l = Null \<and> r = Null then []
      else if s \<in> set (leaf_syms l) then False # path_to l s
      else True # path_to r s)"

text \<open>The value of the accumulator \<^verbatim>\<open>code\<close> of \<^verbatim>\<open>generateCodes\<close> after the steps \<open>p\<close>.\<close>

definition acc_of :: "bool list \<Rightarrow> uint32_t" where
  "acc_of p = foldl (\<lambda>w b. push_bit 1 w OR (if b then 1 else 0)) 0 p"

text \<open>The code entry \<^verbatim>\<open>generateCodes\<close> stores at a leaf reached by the steps \<open>p\<close>.\<close>

definition entry_for :: "bool list \<Rightarrow> CodeEntry" where
  "entry_for p = \<lparr>ce_code = pack_code (acc_of p) (length p), ce_len = of_nat (length p)\<rparr>"

text \<open>The states a \<^verbatim>\<open>BitReader\<close> is in between two calls of \<^verbatim>\<open>bitReaderReadBit\<close>.\<close>

definition br_ok :: "BitReader \<Rightarrow> bool" where
  "br_ok reader =
     (unat (br_bits_available reader) \<le> 8 \<and> br_pos reader \<le> length (br_data reader))"

text \<open>
  A frequency table with 34 symbols, the bytes 1 to 34, whose counts are the Fibonacci
  numbers 1, 1, 2, 3, 5, ... (the table of a file of 14930351 bytes). Its Huffman tree
  is 33 levels deep.
\<close>

definition fib_table :: freq_table where
  "fib_table = (\<lambda>_. 0)
       (1 := 1, 2 := 1, 3 := 2, 4 := 3, 5 := 5, 6 := 8, 7 := 13, 8 := 21, 9 := 34, 10 :=
        55, 11 := 89, 12 := 144, 13 := 233, 14 := 377, 15 := 610, 16 := 987, 17 := 1597,
        18 := 2584, 19 := 4181, 20 := 6765, 21 := 10946, 22 := 17711, 23 := 28657, 24 :=
        46368, 25 := 75025, 26 := 121393, 27 := 196418, 28 := 317811, 29 := 514229, 30
        := 832040, 31 := 1346269, 32 := 2178309, 33 := 3524578, 34 := 5702887)"

text \<open>
  The first variant's heap holds trees that are not null and strict in its first
  \<^verbatim>\<open>size\<close> slots.
\<close>

definition good :: "node \<Rightarrow> bool" where
  "good t = (t \<noteq> Null \<and> strict t)"

definition heap_good :: "MinHeap \<Rightarrow> bool" where
  "heap_good h =
     (mh_size h \<le> length (mh_array h) \<and> list_all good (take (mh_size h) (mh_array h)))"

text \<open>
  What the first variant's encoder writes before the payload (the two \<^verbatim>\<open>fwrite\<close>
  calls of \<^verbatim>\<open>encodeFile\<close>): the size and the 256 counts. \<open>stray_bit_file\<close> is such a
  header for two bytes 97 followed by the payload byte 64, whose bits are 0, 1, 0, ...
\<close>

definition header00 :: "uint64_t \<Rightarrow> freq_table \<Rightarrow> uint8_t list" where
  "header00 sz tbl = le_bytes 8 sz @ concat (map (\<lambda>i. le_bytes 4 (tbl (of_nat i))) [0..<256])"

definition stray_bit_file :: "uint8_t list" where
  "stray_bit_file = header00 2 ((\<lambda>_. 0)(97 := 2)) @ [64]"

section \<open>Properties\<close>

subsection \<open>The decoding loop, one round at a time\<close>

lemma decompress_loop_done:
  "\<not> opos < unat osz \<Longrightarrow> decompress_loop reader root current opos outb osz pad = Some outb"
  by (subst decompress_loop.simps) simp

lemma decompress_loop_eof:
  "opos < unat osz \<Longrightarrow> bitReaderReadBit reader = (b, r') \<Longrightarrow> b < 0 \<Longrightarrow>
   decompress_loop reader root current opos outb osz pad =
     (if within_padding r' pad then Some outb else None)"
  by (subst decompress_loop.simps) simp

lemma decompress_loop_null:
  "opos < unat osz \<Longrightarrow> bitReaderReadBit reader = (b, r') \<Longrightarrow> \<not> b < 0 \<Longrightarrow>
   (if b = 0 then left current else right current) = Null \<Longrightarrow>
   decompress_loop reader root current opos outb osz pad = None"
  by (subst decompress_loop.simps) simp

lemma decompress_loop_leaf:
  "opos < unat osz \<Longrightarrow> bitReaderReadBit reader = (b, r') \<Longrightarrow> \<not> b < 0 \<Longrightarrow>
   c' = (if b = 0 then left current else right current) \<Longrightarrow> c' \<noteq> Null \<Longrightarrow>
   left c' = Null \<and> right c' = Null \<Longrightarrow>
   decompress_loop reader root current opos outb osz pad =
     decompress_loop r' root root (opos + 1) (outb[opos := ch c']) osz pad"
  by (subst decompress_loop.simps) (simp add: Let_def)

lemma decompress_loop_inner:
  "opos < unat osz \<Longrightarrow> bitReaderReadBit reader = (b, r') \<Longrightarrow> \<not> b < 0 \<Longrightarrow>
   c' = (if b = 0 then left current else right current) \<Longrightarrow> c' \<noteq> Null \<Longrightarrow>
   \<not> (left c' = Null \<and> right c' = Null) \<Longrightarrow>
   decompress_loop reader root current opos outb osz pad =
     decompress_loop r' root c' opos outb osz pad"
  by (subst decompress_loop.simps) (auto simp: Let_def)

lemma decompress_loop_length:
  "decompress_loop reader root current opos outb osz pad = Some out
   \<Longrightarrow> length out = length outb"
proof (induction reader root current opos outb osz pad rule: decompress_loop.induct)
  case (1 reader root current opos outb osz pad)
  obtain b r' where rb: "bitReaderReadBit reader = (b, r')"
    by fastforce
  define c' where "c' = (if b = 0 then left current else right current)"
  show ?case
  proof (cases "opos < unat osz \<and> \<not> b < 0 \<and> c' \<noteq> Null")
    case False
    with "1.prems" rb show ?thesis
      by (subst (asm) decompress_loop.simps) (auto simp: c'_def split: if_splits)
  next
    case True
    show ?thesis
    proof (cases "left c' = Null \<and> right c' = Null")
      case leaf: True
      with True "1.prems" rb
      have "decompress_loop r' root root (opos + 1) (outb[opos := ch c']) osz pad = Some out"
        by (simp add: decompress_loop_leaf[OF _ rb _ c'_def])
      with "1.IH"(1)[OF _ refl rb[symmetric] _ c'_def] True leaf show ?thesis
        by simp
    next
      case inner: False
      with True "1.prems" rb
      have "decompress_loop r' root c' opos outb osz pad = Some out"
        by (simp add: decompress_loop_inner[OF _ rb _ c'_def])
      with "1.IH"(2)[OF _ refl rb[symmetric] _ c'_def] True inner show ?thesis
        by simp
    qed
  qed
qed

lemma fold_update_length: "length (fold (\<lambda>i out. out[i := c]) js xs) = length xs"
  by (induction js arbitrary: xs) auto

lemma decompress_length:
  "decompress mem reader root osz pad = Some out \<Longrightarrow> length out = unat osz \<and> osz \<noteq> 0"
  by (auto simp: decompress_def Let_def fold_update_length split: if_splits option.splits
           dest: decompress_loop_length)

lemma decode_length:
  "decode verify mem file = Inr out \<Longrightarrow>
   out \<noteq> [] \<and> length out = unat (h_original_size (parseHeader file))"
  apply (auto simp: decode_def read_container_def readHeader_def Let_def
              split: sum.splits prod.splits if_splits option.splits dest!: decompress_length)
   apply (simp_all add: unat_eq_0)
  done

subsection \<open>Empty input\<close>

text \<open>
  The encoder's \<^verbatim>\<open>main\<close> stops at \<^verbatim>\<open>if (file_size <= 0)\<close> with
  "Input file is empty or cannot read size" before anything is written.
\<close>

theorem C4_counterexample: "encode [] = Inl EmptyInput"
  by (simp add: encode_def)

text \<open>
  C4, as amended: for the empty input buffer the encoder fails with an error and emits
  no container; the decoder never returns the empty buffer, and it fails on every file
  whose header declares \<^verbatim>\<open>original_size\<close> 0 (\<^verbatim>\<open>decompress\<close> returns the null pointer
  for it).
\<close>

theorem C4_empty_input_rejected:
  "encode [] = Inl EmptyInput \<and>
   decode verify mem file \<noteq> Inr [] \<and>
   (h_original_size (parseHeader file) = 0 \<longrightarrow> (\<exists>e. decode verify mem file = Inl e))"
proof -
  have "\<exists>e. decode verify mem file = Inl e" if z: "h_original_size (parseHeader file) = 0"
  proof (cases "decode verify mem file")
    case (Inl e)
    then show ?thesis by blast
  next
    case (Inr out)
    from decode_length[OF Inr] z show ?thesis by simp
  qed
  moreover have "decode verify mem file \<noteq> Inr []"
    using decode_length[where out = "[]"] by blast
  ultimately show ?thesis
    by (simp add: encode_def)
qed

theorem C4_witness:
  "h_original_size (parseHeader [70, 70, 85, 72, 1, 0, 0, 0, 0, 0, 0, 0, 0, 0, 1, 0, 0, 0,
      0, 0, 0, 0, 45, 115, 7, 240, 1, 0, 5, 0, 97, 3, 0, 0, 0, 0]) = 0 \<and>
   (\<exists>e. decode True (\<lambda>_. Some (\<lambda>_. 0)) [70, 70, 85, 72, 1, 0, 0, 0, 0, 0, 0, 0, 0, 0, 1, 0, 0, 0,
      0, 0, 0, 0, 45, 115, 7, 240, 1, 0, 5, 0, 97, 3, 0, 0, 0, 0] = Inl e)"
proof -
  have z: "h_original_size (parseHeader [70, 70, 85, 72, 1, 0, 0, 0, 0, 0, 0, 0, 0, 0, 1, 0,
      0, 0, 0, 0, 0, 0, 45, 115, 7, 240, 1, 0, 5, 0, 97, 3, 0, 0, 0, 0]) = 0"
    by code_simp
  with C4_empty_input_rejected[of True "\<lambda>_. Some (\<lambda>_. 0)" "[70, 70, 85,
      72, 1, 0, 0, 0, 0, 0, 0, 0, 0, 0, 1, 0, 0, 0, 0, 0, 0, 0, 45, 115, 7, 240, 1, 0, 5, 0,
      97, 3, 0, 0, 0, 0]"]
  show ?thesis by blast
qed

subsection \<open>Little-endian fields and the header\<close>

lemma length_le_bytes [simp]: "length (le_bytes k w) = k"
  by (induction k arbitrary: w) auto

lemma from_le_le_bytes:
  "(from_le (le_bytes k w) :: 'a::len word) = take_bit (8 * k) (w :: 'a word)"
proof (induction k arbitrary: w)
  case 0
  then show ?case by simp
next
  case (Suc k)
  show ?case
    apply (simp add: Suc)
    apply (rule bit_word_eqI)
    apply (auto simp: bit_simps)
    done
qed

lemma from_le_le_bytes_id:
  "LENGTH('a::len) \<le> 8 * k \<Longrightarrow> (from_le (le_bytes k w) :: 'a word) = (w :: 'a word)"
  by (simp add: from_le_le_bytes take_bit_word_eq_self)

lemma bit_from_le_bound: "bit (from_le bs :: 'a::len word) k \<Longrightarrow> k < 8 * length bs"
proof (induction bs arbitrary: k)
  case Nil
  then show ?case by simp
next
  case (Cons b bs)
  from Cons.prems have "bit b k \<or> (8 \<le> k \<and> bit (from_le bs :: 'a word) (k - 8))"
    by (auto simp: bit_simps)
  then show ?case
  proof
    assume "bit b k"
    then have "k < 8" by (auto dest: bit_imp_le_length)
    then show ?thesis by simp
  next
    assume "8 \<le> k \<and> bit (from_le bs :: 'a word) (k - 8)"
    with Cons.IH[of "k - 8"] show ?thesis by simp
  qed
qed

lemma le_bytes_from_le:
  "8 * length bs \<le> LENGTH('a::len) \<Longrightarrow> le_bytes (length bs) (from_le bs :: 'a word) = bs"
proof (induction bs)
  case Nil
  then show ?case by simp
next
  case (Cons b bs)
  have a: "(ucast (ucast b OR push_bit 8 (from_le bs :: 'a word)) :: 8 word) = b"
    apply (rule bit_word_eqI)
    using Cons.prems apply (auto simp: bit_simps)
    done
  have b: "drop_bit 8 (ucast b OR push_bit 8 (from_le bs :: 'a word)) = (from_le bs :: 'a word)"
    apply (rule bit_word_eqI)
    using Cons.prems apply (auto simp: bit_simps dest: bit_imp_le_length bit_from_le_bound)
    done
  have "8 * length bs \<le> LENGTH('a)"
    using Cons.prems by simp
  from Cons.IH[OF this] show ?case
    by (simp only: from_le.simps length_Cons le_bytes.simps a b)
qed


lemma parseHeader_writeHeader: "parseHeader (writeHeader h @ rest) = h"
  by (simp add: parseHeader_def writeHeader_def from_le_le_bytes_id nth_append)

lemma length_writeHeader: "length (writeHeader h) = HEADER_SIZE"
  by (simp add: writeHeader_def HEADER_SIZE_def)

subsection \<open>Format rejection\<close>

lemma parseHeader_magic: "h_magic (parseHeader file) = from_le (take 4 file)"
  by (simp add: parseHeader_def)

lemma magic_bytes:
  assumes "4 \<le> length file" and "h_magic (parseHeader file) = MAGIC_NUMBER"
  shows "take 4 file = le_bytes 4 MAGIC_NUMBER"
proof -
  have "length (take 4 file) = 4"
    using assms(1) by simp
  moreover have "le_bytes (length (take 4 file)) (from_le (take 4 file) :: uint32_t) = take 4 file"
    by (rule le_bytes_from_le) simp
  ultimately show ?thesis
    using assms(2) by (simp add: parseHeader_magic)
qed

lemma crc32_table_unfold:
  "crc32_table i =
     crc32_step (crc32_step (crc32_step (crc32_step
       (crc32_step (crc32_step (crc32_step (crc32_step i)))))))"
  by (simp add: crc32_table_def eval_nat_numeral)

lemmas crc32_eval = crc32_def crc32_update_def crc32_table_unfold crc32_step_def

lemmas read_container_eval =
  read_container_def readHeader_def readFreqTable_def parseHeader_def HEADER_SIZE_def
  MAGIC_NUMBER_def

lemma decode_InrI:
  assumes "read_container file = Inr (h, tbl, p)"
    and "buildHuffmanTree tbl = root" and "root \<noteq> Null"
    and "decompress mem (bitReaderInit p) root (h_original_size h) (h_padding_bits h) = Some out"
    and "verify \<longrightarrow> crc32 out = h_checksum h"
  shows "decode verify mem file = Inr out"
  using assms by (auto simp: decode_def)

text \<open>
  A container that the encoder wrote for the three bytes \<open>aaa\<close>, with the version field
  changed from 1 to 0: \<^verbatim>\<open>readHeader\<close> only rejects \<^verbatim>\<open>header->version > 1\<close>, so the
  file is decoded, checksum verified.
\<close>

theorem C8_counterexample:
  "h_version (parseHeader [70, 70, 85, 72, 0, 0, 3, 0, 0, 0, 0, 0, 0, 0, 1, 0, 0, 0, 0, 0, 0, 0,
      45, 115, 7, 240, 1, 0, 5, 0, 97, 3, 0, 0, 0, 0]) \<noteq> VERSION \<and>
   decode True (\<lambda>_. Some (\<lambda>_. 0)) [70, 70, 85, 72, 0, 0, 3, 0, 0, 0, 0, 0, 0, 0, 1, 0, 0, 0, 0, 0, 0, 0,
      45, 115, 7, 240, 1, 0, 5, 0, 97, 3, 0, 0, 0, 0] = Inr [97, 97, 97]"
proof -
  have v: "h_version (parseHeader [70, 70, 85, 72, 0, 0, 3, 0, 0, 0, 0, 0, 0, 0, 1, 0, 0, 0, 0, 0,
      0, 0, 45, 115, 7, 240, 1, 0, 5, 0, 97, 3, 0, 0, 0, 0]) \<noteq> VERSION"
    by (simp add: parseHeader_def VERSION_def)
  have rc: "read_container [70, 70, 85, 72, 0, 0, 3, 0, 0, 0, 0, 0, 0, 0, 1, 0, 0, 0, 0, 0, 0, 0,
      45, 115, 7, 240, 1, 0, 5, 0, 97, 3, 0, 0, 0, 0] =
      Inr (\<lparr>h_magic = 1213548102, h_version = 0, h_original_size = 3, h_compressed_size = 1,
            h_checksum = 4027020077, h_tree_size = 1, h_padding_bits = 5, h_reserved = 0\<rparr>,
           (\<lambda>_. 0)(97 := 3), [0])"
    by (simp add: read_container_eval)
  have t: "buildHuffmanTree ((\<lambda>_. 0)(97 := 3)) = Node 3 97 Null Null"
    by code_simp
  have d: "decompress (\<lambda>_. Some (\<lambda>_. 0)) (bitReaderInit [0]) (Node 3 97 Null Null) 3 5 = Some [97, 97, 97]"
    by code_simp
  have c: "crc32 [97, 97, 97] = 4027020077"
    by (simp add: crc32_eval)
  have "decode True (\<lambda>_. Some (\<lambda>_. 0)) [70, 70, 85, 72, 0, 0, 3, 0, 0, 0, 0, 0, 0, 0, 1, 0, 0, 0, 0, 0, 0,
      0, 45, 115, 7, 240, 1, 0, 5, 0, 97, 3, 0, 0, 0, 0] = Inr [97, 97, 97]"
    by (rule decode_InrI[OF rc t]) (simp_all add: d c)
  with v show ?thesis by blast
qed

text \<open>
  C8, as amended: the decoder fails with a format error whenever the first four bytes
  of the file are not the magic constant or the version field is greater than 1 (a
  version below 1 is accepted): with "File too small" when the file has at most 30
  bytes, else with "Not a valid Huffman compressed file" for a wrong magic number, else
  with "Unsupported file version". It never returns output then.
\<close>

theorem C8_format_rejection:
  assumes "take 4 file \<noteq> le_bytes 4 MAGIC_NUMBER \<or> h_version (parseHeader file) > 1"
  shows "(\<exists>e. decode verify mem file = Inl e \<and> FormatError e) \<and>
         decode verify mem file =
           (if length file \<le> HEADER_SIZE then Inl FileTooSmall
            else if take 4 file \<noteq> le_bytes 4 MAGIC_NUMBER then Inl NotHuffmanFile
            else Inl UnsupportedVersion)"
proof (cases "length file \<le> HEADER_SIZE")
  case True
  then show ?thesis
    by (simp add: decode_def read_container_def FormatError_def)
next
  case False
  then have len: "4 \<le> length file" "\<not> length file < HEADER_SIZE"
    by (simp_all add: HEADER_SIZE_def)
  show ?thesis
  proof (cases "take 4 file \<noteq> le_bytes 4 MAGIC_NUMBER")
    case True
    with magic_bytes[OF len(1)] have "h_magic (parseHeader file) \<noteq> MAGIC_NUMBER"
      by blast
    with False len True show ?thesis
      by (simp add: decode_def read_container_def readHeader_def FormatError_def)
  next
    case magic: False
    with assms have v: "h_version (parseHeader file) > 1"
      by simp
    from magic have "h_magic (parseHeader file) = MAGIC_NUMBER"
      by (simp add: parseHeader_magic from_le_le_bytes_id)
    with False len magic v show ?thesis
      by (simp add: decode_def read_container_def readHeader_def FormatError_def)
  qed
qed

theorem C8_witness:
  "take 4 [0, 70, 85, 72, 1, 0, 3, 0, 0, 0, 0, 0, 0, 0, 1, 0, 0, 0, 0, 0, 0, 0,
      45, 115, 7, 240, 1, 0, 5, 0, 97, 3, 0, 0, 0, 0] \<noteq> le_bytes 4 MAGIC_NUMBER \<and>
   decode True (\<lambda>_. Some (\<lambda>_. 0)) [0, 70, 85, 72, 1, 0, 3, 0, 0, 0, 0, 0, 0, 0, 1, 0, 0, 0, 0, 0, 0, 0,
      45, 115, 7, 240, 1, 0, 5, 0, 97, 3, 0, 0, 0, 0] = Inl NotHuffmanFile"
proof -
  have m: "take 4 [0, 70, 85, 72, 1, 0, 3, 0, 0, 0, 0, 0, 0, 0, 1, 0, 0, 0, 0, 0, 0, 0,
      45, 115, 7, 240, 1, 0, 5, 0, 97, 3, 0, 0, 0, 0] \<noteq> le_bytes 4 MAGIC_NUMBER"
    by code_simp
  then have "take 4 [0, 70, 85, 72, 1, 0, 3, 0, 0, 0, 0, 0, 0, 0, 1, 0, 0, 0, 0, 0, 0, 0,
      45, 115, 7, 240, 1, 0, 5, 0, 97, 3, 0, 0, 0, 0] \<noteq> le_bytes 4 MAGIC_NUMBER \<or>
      h_version (parseHeader [0, 70, 85, 72, 1, 0, 3, 0, 0, 0, 0, 0, 0, 0, 1, 0, 0, 0, 0, 0, 0,
      0, 45, 115, 7, 240, 1, 0, 5, 0, 97, 3, 0, 0, 0, 0]) > 1"
    by (rule disjI1)
  from C8_format_rejection[OF this, of True "\<lambda>_. Some (\<lambda>_. 0)"] m show ?thesis
    by (simp add: HEADER_SIZE_def)
qed

subsection \<open>The queue keeps its content\<close>

lemma slots_update_out: "i \<notin> S \<Longrightarrow> slots (h[i := x]) S = slots h S"
proof (cases "finite S")
  case True
  assume "i \<notin> S"
  with True show ?thesis
    unfolding slots_def by (intro image_mset_cong) (auto intro!: nth_list_update_neq)
next
  case False
  then show ?thesis by (simp add: slots_def)
qed

lemma slots_remove:
  "finite S \<Longrightarrow> i \<in> S \<Longrightarrow> slots h S = slots h (S - {i}) + {#h ! i#}"
  unfolding slots_def by (simp add: mset_set.remove)

lemma slots_update_in:
  assumes "finite S" "i \<in> S" "i < length h"
  shows "slots (h[i := x]) S = slots h (S - {i}) + {#x#}"
proof -
  have "slots (h[i := x]) S = slots (h[i := x]) (S - {i}) + {#h[i := x] ! i#}"
    using assms by (intro slots_remove)
  then show ?thesis
    using assms by (simp add: slots_update_out)
qed

lemma length_percolate_up [simp]: "length (percolate_up h item k) = length h"
  by (induction h item k rule: percolate_up.induct)
     (subst percolate_up.simps, auto)

lemma percolate_up_slots:
  "1 \<le> k \<Longrightarrow> k \<le> m \<Longrightarrow> m < length h \<Longrightarrow>
   slots (percolate_up h item k) {1..m} = slots h ({1..m} - {k}) + {#item#}"
proof (induction h item k rule: percolate_up.induct)
  case (1 h item k)
  show ?case
  proof (cases "k > 1 \<and> freq (h ! (k div 2)) > freq item")
    case True
    let ?p = "k div 2"
    let ?h1 = "h[k := h ! ?p]"
    from True "1.prems" have p: "1 \<le> ?p" "?p \<le> m" "?p \<noteq> k" "m < length ?h1"
      by auto
    have "slots (percolate_up h item k) {1..m} = slots (percolate_up ?h1 item ?p) {1..m}"
      using True by (subst percolate_up.simps) simp
    also have "\<dots> = slots ?h1 ({1..m} - {?p}) + {#item#}"
      using "1.IH"[OF True p(1,2,4)] .
    also have "slots ?h1 ({1..m} - {?p}) = slots h ({1..m} - {?p} - {k}) + {#h ! ?p#}"
      using "1.prems" p by (intro slots_update_in) auto
    also have "\<dots> = slots h ({1..m} - {k})"
    proof -
      have "{1..m} - {?p} - {k} = {1..m} - {k} - {?p}" by auto
      moreover have "slots h ({1..m} - {k}) = slots h ({1..m} - {k} - {?p}) + {#h ! ?p#}"
        using p by (intro slots_remove) auto
      ultimately show ?thesis by simp
    qed
    finally show ?thesis .
  next
    case False
    then have "percolate_up h item k = h[k := item]"
      by (subst percolate_up.simps) auto
    with "1.prems" show ?thesis
      by (simp add: slots_update_in)
  qed
qed

lemma length_percolate_down [simp]: "length (percolate_down h m lst k) = length h"
  by (induction h m lst k rule: percolate_down.induct)
     (subst percolate_down.simps, auto simp: Let_def)

lemma percolate_down_slots:
  "1 \<le> k \<Longrightarrow> k \<le> m \<Longrightarrow> m < length h \<Longrightarrow>
   slots (percolate_down h m lst k) {1..m} = slots h ({1..m} - {k}) + {#lst#}"
proof (induction h m lst k rule: percolate_down.induct)
  case (1 h m lst k)
  define j where
    "j = (if 2 * k < m \<and> freq (h ! (2 * k)) > freq (h ! (2 * k + 1)) then 2 * k + 1 else 2 * k)"
  show ?case
  proof (cases "0 < k \<and> 2 * k \<le> m \<and> \<not> freq lst \<le> freq (h ! j)")
    case True
    let ?h1 = "h[k := h ! j]"
    from True "1.prems" have j: "1 \<le> j" "j \<le> m" "j \<noteq> k" "m < length ?h1"
      by (auto simp: j_def)
    have "slots (percolate_down h m lst k) {1..m} = slots (percolate_down ?h1 m lst j) {1..m}"
      using True by (subst percolate_down.simps) (simp add: Let_def j_def)
    also have "\<dots> = slots ?h1 ({1..m} - {j}) + {#lst#}"
      using "1.IH"[OF _ refl j_def _ j(1,2,4)] True
      by simp
    also have "slots ?h1 ({1..m} - {j}) = slots h ({1..m} - {j} - {k}) + {#h ! j#}"
      using "1.prems" j by (intro slots_update_in) auto
    also have "\<dots> = slots h ({1..m} - {k})"
    proof -
      have "{1..m} - {j} - {k} = {1..m} - {k} - {j}" by auto
      moreover have "slots h ({1..m} - {k}) = slots h ({1..m} - {k} - {j}) + {#h ! j#}"
        using j by (intro slots_remove) auto
      ultimately show ?thesis by simp
    qed
    finally show ?thesis .
  next
    case False
    then have "percolate_down h m lst k = h[k := lst]"
      by (subst percolate_down.simps) (auto simp: Let_def j_def)
    with "1.prems" show ?thesis
      by (simp add: slots_update_in)
  qed
qed

lemma PQinit_wf: "pq_wf (PQinit m)" "pq_n (PQinit m) = 0" "pq_mset (PQinit m) = {#}"
  by (simp_all add: PQinit_def pq_wf_def pq_mset_def slots_def)

lemma PQinsert_props:
  assumes "pq_wf pq" "pq_n pq < pq_maxN pq"
  shows "pq_wf (PQinsert pq x)"
    and "pq_n (PQinsert pq x) = pq_n pq + 1"
    and "pq_maxN (PQinsert pq x) = pq_maxN pq"
    and "pq_mset (PQinsert pq x) = pq_mset pq + {#x#}"
proof -
  let ?k = "pq_n pq + 1"
  have "slots (percolate_up (pq_heap pq) x ?k) {1..?k} = slots (pq_heap pq) ({1..?k} - {?k}) + {#x#}"
    using assms by (intro percolate_up_slots) (auto simp: pq_wf_def)
  moreover have "{1..?k} - {?k} = {1..pq_n pq}"
    by auto
  ultimately show "pq_mset (PQinsert pq x) = pq_mset pq + {#x#}"
    using assms by (simp add: PQinsert_def pq_mset_def Let_def)
  show "pq_wf (PQinsert pq x)" "pq_n (PQinsert pq x) = pq_n pq + 1"
    "pq_maxN (PQinsert pq x) = pq_maxN pq"
    using assms by (simp_all add: PQinsert_def pq_wf_def Let_def)
qed

lemma PQdelmin_props:
  assumes "pq_wf pq" "0 < pq_n pq" "PQdelmin pq = (x, pq')"
  shows "pq_wf pq'"
    and "pq_n pq' = pq_n pq - 1"
    and "pq_maxN pq' = pq_maxN pq"
    and "pq_mset pq = pq_mset pq' + {#x#}"
proof -
  let ?h = "pq_heap pq"
  let ?n = "pq_n pq"
  let ?m = "pq_n pq - 1"
  from assms have x: "x = ?h ! 1"
    by (auto simp: PQdelmin_def Let_def split: if_splits)
  have whole: "slots ?h {1..?n} = slots ?h ({1..?n} - {1}) + {#?h ! 1#}"
    using assms by (intro slots_remove) auto
  show "pq_mset pq = pq_mset pq' + {#x#}"
  proof (cases "?m = 0")
    case True
    with assms have "pq' = pq\<lparr>pq_n := 0\<rparr>"
      by (auto simp: PQdelmin_def Let_def)
    moreover have "slots ?h ({1..?n} - {1}) = {#}"
    proof -
      from True assms have "{1..?n} - {1} = {}"
        by auto
      then show ?thesis
        by (simp only: slots_def mset_set.empty image_mset_empty)
    qed
    ultimately show ?thesis
      using whole x by (simp add: pq_mset_def) (simp add: slots_def)
  next
    case False
    with assms have pq': "pq' = pq\<lparr>pq_n := ?m, pq_heap := percolate_down ?h ?m (?h ! ?n) 1\<rparr>"
      by (auto simp: PQdelmin_def Let_def)
    have "slots (percolate_down ?h ?m (?h ! ?n) 1) {1..?m} =
          slots ?h ({1..?m} - {1}) + {#?h ! ?n#}"
      using False assms by (intro percolate_down_slots) (auto simp: pq_wf_def)
    moreover have "slots ?h ({1..?n} - {1}) = slots ?h ({1..?n} - {1} - {?n}) + {#?h ! ?n#}"
      using False assms by (intro slots_remove) auto
    moreover have "{1..?n} - {1} - {?n} = {1..?m} - {1}"
      using assms by auto
    ultimately show ?thesis
      using whole x pq' by (simp add: pq_mset_def)
  qed
  show "pq_wf pq'" "pq_n pq' = pq_n pq - 1" "pq_maxN pq' = pq_maxN pq"
    using assms by (auto simp: PQdelmin_def pq_wf_def Let_def split: if_splits)
qed

subsection \<open>The leaves that enter the queue\<close>

lemma insert_leaves_prefix:
  "k \<le> MAXN \<Longrightarrow>
   (let cs = filter (\<lambda>c. tbl c > 0) (map of_nat [0..<k]);
        st = fold (insert_leaf tbl) [0..<k] (PQinit MAXN, 0)
    in pq_wf (fst st) \<and> pq_maxN (fst st) = MAXN \<and> pq_n (fst st) = length cs \<and>
       snd st = length cs \<and> pq_mset (fst st) = mset (map (leaf_of tbl) cs))"
  unfolding Let_def
proof (induction k)
  case 0
  then show ?case by (simp add: PQinit_wf) (simp add: PQinit_def)
next
  case (Suc k)
  let ?st = "fold (insert_leaf tbl) [0..<k] (PQinit MAXN, 0)"
  let ?cs = "filter (\<lambda>c. tbl c > 0) (map of_nat [0..<k])"
  from Suc have IH: "pq_wf (fst ?st)" "pq_maxN (fst ?st) = MAXN" "pq_n (fst ?st) = length ?cs"
    "snd ?st = length ?cs" "pq_mset (fst ?st) = mset (map (leaf_of tbl) ?cs)"
    by simp_all
  have "length ?cs \<le> k"
    using length_filter_le[of "\<lambda>c. tbl c > 0" "map of_nat [0..<k]"] by simp
  with Suc.prems IH have room: "pq_n (fst ?st) < pq_maxN (fst ?st)"
    by simp
  have step: "fold (insert_leaf tbl) [0..<Suc k] (PQinit MAXN, 0) = insert_leaf tbl k ?st"
    by simp
  show ?case
  proof (cases "tbl (of_nat k) > 0")
    case True
    then have "insert_leaf tbl k ?st = (PQinsert (fst ?st) (leaf_of tbl (of_nat k)), snd ?st + 1)"
      by (simp add: insert_leaf_def newNode_def leaf_of_def)
    with True IH PQinsert_props[OF IH(1) room, of "leaf_of tbl (of_nat k)"] show ?thesis
      unfolding step by simp
  next
    case False
    then have "insert_leaf tbl k ?st = ?st"
      by (simp add: insert_leaf_def)
    with False IH show ?thesis
      unfolding step by simp
  qed
qed

lemma insert_leaves_props:
  assumes "insert_leaves tbl = (pq, symbols)"
  shows "pq_wf pq" "pq_maxN pq = MAXN" "pq_n pq = length (symbols_of tbl)"
    "symbols = length (symbols_of tbl)" "pq_mset pq = mset (map (leaf_of tbl) (symbols_of tbl))"
  using insert_leaves_prefix[of MAXN tbl] assms
  by (simp_all add: insert_leaves_def symbols_of_def Let_def)

lemma bytes_enum:
  "distinct (map of_nat [0..<MAXN] :: uint8_t list)" "set (map of_nat [0..<MAXN] :: uint8_t list) = UNIV"
proof -
  have "inj_on (of_nat :: nat \<Rightarrow> uint8_t) {0..<MAXN}"
  proof (rule inj_onI)
    fix x y :: nat
    assume "x \<in> {0..<MAXN}" "y \<in> {0..<MAXN}" "(of_nat x :: uint8_t) = of_nat y"
    then have "unat (of_nat x :: uint8_t) = unat (of_nat y :: uint8_t)" "x < 256" "y < 256"
      by (simp_all add: MAXN_def)
    then show "x = y"
      by (simp add: unat_of_nat)
  qed
  then show "distinct (map of_nat [0..<MAXN] :: uint8_t list)"
    by (simp add: distinct_map)
  show "set (map of_nat [0..<MAXN] :: uint8_t list) = UNIV"
  proof (rule set_eqI, simp)
    fix c :: uint8_t
    have "unat c < 2 ^ LENGTH(8)"
      by (rule unsigned_less)
    then have "unat c < 256"
      by simp
    then have "unat c \<in> {0..<MAXN}" "of_nat (unat c) = c"
      by (simp_all add: MAXN_def)
    then show "c \<in> of_nat ` {0..<MAXN}"
      by (metis imageI)
  qed
qed

lemma symbols_of_props:
  "distinct (symbols_of tbl)" "set (symbols_of tbl) = {c. tbl c > 0}"
  using bytes_enum by (auto simp: symbols_of_def)

lemma all_leaves_simps [simp]:
  "all_leaves {#} = {#}" "all_leaves (M + N) = all_leaves M + all_leaves N"
  "all_leaves (add_mset t M) = mset (leaf_syms t) + all_leaves M"
  by (simp_all add: all_leaves_def)

lemma all_leaves_leaf_of: "all_leaves (mset (map (leaf_of tbl) cs)) = mset cs"
  by (induction cs) (simp_all add: leaf_of_def)

lemma merge_loop_props:
  assumes "pq_wf pq" "pq_n pq = symbols" "1 \<le> symbols" "\<forall>t \<in># pq_mset pq. t \<noteq> Null \<and> strict t"
  shows "pq_wf (merge_loop pq symbols) \<and> pq_n (merge_loop pq symbols) = 1 \<and>
         (\<forall>t \<in># pq_mset (merge_loop pq symbols). t \<noteq> Null \<and> strict t) \<and>
         all_leaves (pq_mset (merge_loop pq symbols)) = all_leaves (pq_mset pq)"
  using assms
proof (induction pq symbols rule: merge_loop.induct)
  case (1 pq symbols)
  show ?case
  proof (cases "symbols > 1")
    case False
    then have "merge_loop pq symbols = pq"
      by (subst merge_loop.simps) simp
    with False "1.prems" show ?thesis
      by simp
  next
    case True
    obtain l pq1 where d1: "PQdelmin pq = (l, pq1)" by fastforce
    obtain r pq2 where d2: "PQdelmin pq1 = (r, pq2)" by fastforce
    define merged where "merged = newNode 0 (freq l + freq r) l r"
    let ?pq3 = "PQinsert pq2 merged"
    from True "1.prems" have n: "0 < pq_n pq" by simp
    note p1 = PQdelmin_props[OF "1.prems"(1) n d1]
    from True "1.prems" p1 have n1: "0 < pq_n pq1" by simp
    note p2 = PQdelmin_props[OF p1(1) n1 d2]
    from p1 p2 "1.prems" True have room: "pq_n pq2 < pq_maxN pq2"
      by (auto simp: pq_wf_def)
    note p3 = PQinsert_props[OF p2(1) room, of merged]
    have ms: "pq_mset pq = pq_mset pq2 + {#r#} + {#l#}"
      using p1(4) p2(4) by simp
    with "1.prems"(4) have lr: "l \<noteq> Null" "strict l" "r \<noteq> Null" "strict r"
      and rest: "\<forall>t \<in># pq_mset pq2. t \<noteq> Null \<and> strict t"
      by auto
    then have m: "merged \<noteq> Null" "strict merged" "leaf_syms merged = leaf_syms l @ leaf_syms r"
      by (simp_all add: merged_def newNode_def)
    have unfold: "merge_loop pq symbols = merge_loop ?pq3 (symbols - 1)"
      using True d1 d2 by (subst merge_loop.simps) (simp add: merged_def)
    have "pq_wf (merge_loop ?pq3 (symbols - 1)) \<and> pq_n (merge_loop ?pq3 (symbols - 1)) = 1 \<and>
         (\<forall>t \<in># pq_mset (merge_loop ?pq3 (symbols - 1)). t \<noteq> Null \<and> strict t) \<and>
         all_leaves (pq_mset (merge_loop ?pq3 (symbols - 1))) = all_leaves (pq_mset ?pq3)"
    proof (rule "1.IH"[OF True refl d1[symmetric] refl d2[symmetric] merged_def])
      show "pq_wf ?pq3" by (rule p3(1))
      show "pq_n ?pq3 = symbols - 1"
        using p1(2) p2(2) p3(2) "1.prems"(2) True by simp
      show "1 \<le> symbols - 1" using True by simp
      show "\<forall>t \<in># pq_mset ?pq3. t \<noteq> Null \<and> strict t"
        using p3(4) rest m by simp
    qed
    moreover have "all_leaves (pq_mset ?pq3) = all_leaves (pq_mset pq)"
      using p3(4) ms m by simp
    ultimately show ?thesis
      unfolding unfold by simp
  qed
qed

subsection \<open>The tree that buildHuffmanTree returns\<close>

lemma pq_mset_empty: "pq_n pq = 0 \<Longrightarrow> pq_mset pq = {#}"
  by (simp add: pq_mset_def slots_def)

lemma buildHuffmanTree_Null: "symbols_of tbl = [] \<Longrightarrow> buildHuffmanTree tbl = Null"
proof -
  assume e: "symbols_of tbl = []"
  obtain pq symbols where il: "insert_leaves tbl = (pq, symbols)" by fastforce
  from insert_leaves_props(4)[OF il] e il show ?thesis
    by (simp add: buildHuffmanTree_def)
qed

lemma buildHuffmanTree_single:
  assumes "symbols_of tbl = [s]"
  shows "buildHuffmanTree tbl = leaf_of tbl s"
proof -
  obtain pq symbols where il: "insert_leaves tbl = (pq, symbols)" by fastforce
  note p = insert_leaves_props[OF il]
  obtain x pq' where d: "PQdelmin pq = (x, pq')" by fastforce
  from p assms have n: "0 < pq_n pq" by simp
  note q = PQdelmin_props[OF p(1) n d]
  from q(2) p(3) assms have "pq_mset pq' = {#}"
    by (simp add: pq_mset_empty)
  with q(4) p(5) assms have "x = leaf_of tbl s"
    by simp
  with il p(4) assms d show ?thesis
    by (simp add: buildHuffmanTree_def)
qed

lemma all_leaves_leaf_of_image: "all_leaves (image_mset (leaf_of tbl) (mset cs)) = mset cs"
  using all_leaves_leaf_of[of tbl cs] by simp

lemma buildHuffmanTree_props:
  assumes "symbols_of tbl \<noteq> []"
  shows "buildHuffmanTree tbl \<noteq> Null" "strict (buildHuffmanTree tbl)"
    "mset (leaf_syms (buildHuffmanTree tbl)) = mset (symbols_of tbl)"
proof -
  obtain pq symbols where il: "insert_leaves tbl = (pq, symbols)" by fastforce
  note p = insert_leaves_props[OF il]
  from p(4) assms have pos: "1 \<le> symbols" by (cases "symbols_of tbl") simp_all
  have good: "\<forall>t \<in># pq_mset pq. t \<noteq> Null \<and> strict t"
    unfolding p(5) by (auto simp: leaf_of_def)
  define pq1 where "pq1 = (if symbols = 1 then pq else merge_loop pq symbols)"
  have pq1: "pq_wf pq1 \<and> pq_n pq1 = 1 \<and> (\<forall>t \<in># pq_mset pq1. t \<noteq> Null \<and> strict t) \<and>
             all_leaves (pq_mset pq1) = all_leaves (pq_mset pq)"
  proof (cases "symbols = 1")
    case True
    with p good show ?thesis by (simp add: pq1_def)
  next
    case False
    with merge_loop_props[OF p(1) _ pos good] p show ?thesis
      by (simp add: pq1_def)
  qed
  obtain x pq' where d: "PQdelmin pq1 = (x, pq')" by fastforce
  from pq1 have n: "0 < pq_n pq1" by simp
  note q = PQdelmin_props[OF _ n d]
  from q(2) pq1 have "pq_mset pq' = {#}"
    by (simp add: pq_mset_empty)
  with q(4) pq1 have one: "pq_mset pq1 = {#x#}"
    by simp
  have root: "buildHuffmanTree tbl = x"
    using il pos d by (auto simp: buildHuffmanTree_def pq1_def)
  from one pq1 show "buildHuffmanTree tbl \<noteq> Null" "strict (buildHuffmanTree tbl)"
    unfolding root by simp_all
  from one pq1 p(5) show "mset (leaf_syms (buildHuffmanTree tbl)) = mset (symbols_of tbl)"
    unfolding root by (simp add: all_leaves_leaf_of_image)
qed

lemma buildHuffmanTree_Null_iff: "buildHuffmanTree tbl = Null \<longleftrightarrow> symbols_of tbl = []"
  using buildHuffmanTree_Null buildHuffmanTree_props(1) by blast

lemma leaf_syms_distinct:
  assumes "symbols_of tbl \<noteq> []"
  shows "distinct (leaf_syms (buildHuffmanTree tbl))"
    "set (leaf_syms (buildHuffmanTree tbl)) = {c. tbl c > 0}"
proof -
  from buildHuffmanTree_props(3)[OF assms] symbols_of_props(1)[of tbl]
  show "distinct (leaf_syms (buildHuffmanTree tbl))"
    by (metis mset_eq_imp_distinct_iff)
  from buildHuffmanTree_props(3)[OF assms] symbols_of_props(2)[of tbl]
  show "set (leaf_syms (buildHuffmanTree tbl)) = {c. tbl c > 0}"
    by (metis mset_eq_setD)
qed

lemma strict_buildHuffmanTree: "strict (buildHuffmanTree tbl)"
  by (cases "symbols_of tbl = []") (simp_all add: buildHuffmanTree_Null buildHuffmanTree_props)

subsection \<open>The persisted frequency table\<close>

lemma writeFreqTable_prefix:
  "fold (write_entry tbl) [0..<k] ([], 0) =
     (concat (map (entry_bytes tbl) (filter (\<lambda>c. tbl c > 0) (map of_nat [0..<k]))),
      of_nat (length (filter (\<lambda>c. tbl c > 0) (map of_nat [0..<k]))))"
proof (induction k)
  case 0
  then show ?case by simp
next
  case (Suc k)
  have step: "fold (write_entry tbl) [0..<Suc k] ([], 0) =
        write_entry tbl k (fold (write_entry tbl) [0..<k] ([], 0))"
    by simp
  have e: "entry_bytes tbl (of_nat k) = of_nat k # le_bytes 4 (tbl (of_nat k))"
    by (simp add: entry_bytes_def)
  show ?case
    unfolding step Suc by (simp add: write_entry_def e)
qed

lemma writeFreqTable_eq:
  "writeFreqTable tbl =
     (concat (map (entry_bytes tbl) (symbols_of tbl)), of_nat (length (symbols_of tbl)))"
  by (simp add: writeFreqTable_def writeFreqTable_prefix symbols_of_def)

lemma length_symbols_of: "length (symbols_of tbl) \<le> 256"
  using length_filter_le[of "\<lambda>c. tbl c > 0" "map of_nat [0..<MAXN]"]
  by (simp add: symbols_of_def MAXN_def)

lemma tree_size_exact: "unat (snd (writeFreqTable tbl)) = length (symbols_of tbl)"
  using length_symbols_of[of tbl] by (simp add: writeFreqTable_eq unat_of_nat)

lemma length_table: "length (fst (writeFreqTable tbl)) = 5 * length (symbols_of tbl)"
proof -
  have "length (concat (map (entry_bytes tbl) cs)) = 5 * length cs" for cs
    by (induction cs) (simp_all add: entry_bytes_def)
  then show ?thesis by (simp add: writeFreqTable_eq)
qed

lemma read_entries_written:
  "read_entries (length cs) (concat (map (entry_bytes tbl) cs) @ rest) t0 =
     Some (fold (\<lambda>c t. t(c := tbl c)) cs t0, rest)"
proof (induction cs arbitrary: t0)
  case Nil
  then show ?case by simp
next
  case (Cons c cs)
  have v: "(from_le (le_bytes 4 (tbl c)) :: uint32_t) = tbl c"
    by (rule from_le_le_bytes_id) simp
  have e: "entry_bytes tbl c = c # le_bytes 4 (tbl c)"
    by (simp add: entry_bytes_def)
  have "read_entries (length (c # cs)) (concat (map (entry_bytes tbl) (c # cs)) @ rest) t0 =
        read_entries (length cs) (concat (map (entry_bytes tbl) cs) @ rest) (t0(c := tbl c))"
    by (simp add: e v)
  then show ?case
    by (simp only: Cons fold_simps o_apply)
qed

lemma fold_restore:
  "fold (\<lambda>c t. t(c := tbl c)) cs t0 x = (if x \<in> set cs then tbl x else t0 x)"
  by (induction cs arbitrary: t0) auto

lemma restore_table: "fold (\<lambda>c t. t(c := tbl c)) (symbols_of tbl) (\<lambda>_. 0) = tbl"
proof
  fix x
  show "fold (\<lambda>c t. t(c := tbl c)) (symbols_of tbl) (\<lambda>_. 0) x = tbl x"
    using symbols_of_props(2)[of tbl] by (auto simp: fold_restore word_gt_0)
qed

lemma readFreqTable_writeFreqTable:
  "readFreqTable (fst (writeFreqTable tbl) @ rest) (snd (writeFreqTable tbl)) = Some (tbl, rest)"
  unfolding readFreqTable_def tree_size_exact
  by (simp add: writeFreqTable_eq read_entries_written restore_table)

subsection \<open>Writing bits\<close>

lemma length_bits_of [simp]: "length (bits_of w k) = k"
  by (simp add: bits_of_def)

lemma nth_bits_of: "j < k \<Longrightarrow> bits_of w k ! j = bit w (k - 1 - j)"
  by (simp add: bits_of_def)

lemma bits_of_0 [simp]: "bits_of w 0 = []"
  by (simp add: bits_of_def)

lemma bit_0_shift_in:
  "bit (push_bit 1 (w :: uint8_t) OR ucast (drop_bit i (v :: uint32_t) AND 1)) 0 = bit v i"
  apply (subst bit_or_iff)
  apply (subst bit_push_bit_iff)
  apply (subst bit_ucast_iff)
  apply (subst bit_and_iff)
  apply (subst bit_drop_bit_eq)
  apply (simp add: bit_1_iff)
  done

lemma bit_Suc_shift_in:
  "Suc n < 8 \<Longrightarrow>
   bit (push_bit 1 (w :: uint8_t) OR ucast (drop_bit i (v :: uint32_t) AND 1)) (Suc n) = bit w n"
  apply (subst bit_or_iff)
  apply (subst bit_push_bit_iff)
  apply (subst bit_ucast_iff)
  apply (subst bit_and_iff)
  apply (simp add: bit_1_iff possible_bit_def)
  done

lemma bits_of_shift_in:
  fixes w :: uint8_t
  assumes "k < 8"
  shows "bits_of (push_bit 1 w OR ucast (drop_bit i (v :: uint32_t) AND 1)) (Suc k) =
         bits_of w k @ [bit v i]"
proof (rule nth_equalityI)
  show "length (bits_of (push_bit 1 w OR ucast (drop_bit i v AND 1)) (Suc k)) =
        length (bits_of w k @ [bit v i])"
    by simp
next
  fix j
  assume "j < length (bits_of (push_bit 1 w OR ucast (drop_bit i v AND 1)) (Suc k))"
  then have j: "j < Suc k" by simp
  show "bits_of (push_bit 1 w OR ucast (drop_bit i v AND 1)) (Suc k) ! j =
        (bits_of w k @ [bit v i]) ! j"
  proof (cases "j = k")
    case True
    then have idx: "Suc k - 1 - j = 0" by simp
    have "bits_of (push_bit 1 w OR ucast (drop_bit i v AND 1)) (Suc k) ! j =
               bit (push_bit 1 w OR ucast (drop_bit i v AND 1)) 0"
      using nth_bits_of[OF j, of "push_bit 1 w OR ucast (drop_bit i v AND 1)"]
      unfolding idx .
    also have "\<dots> = bit v i"
      by (rule bit_0_shift_in)
    finally show ?thesis
      using True by (simp add: nth_append)
  next
    case False
    with j have jk: "j < k" by simp
    then have idx: "Suc k - 1 - j = Suc (k - 1 - j)" by simp
    have "bits_of (push_bit 1 w OR ucast (drop_bit i v AND 1)) (Suc k) ! j =
               bit (push_bit 1 w OR ucast (drop_bit i v AND 1)) (Suc (k - 1 - j))"
      using nth_bits_of[OF j, of "push_bit 1 w OR ucast (drop_bit i v AND 1)"]
      unfolding idx .
    also have "\<dots> = bit w (k - 1 - j)"
      using assms jk by (intro bit_Suc_shift_in) simp
    finally show ?thesis
      using jk by (simp add: nth_append nth_bits_of)
  qed
qed

lemma write_bit_bits:
  assumes "unat (bb_bits_used buf) < 8"
  shows "bb_bits (write_bit v i buf) = bb_bits buf @ [bit v i]"
    and "unat (bb_bits_used (write_bit v i buf)) < 8"
proof -
  let ?k = "unat (bb_bits_used buf)"
  let ?b = "push_bit 1 (bb_bit_buffer buf) OR ucast (drop_bit i v AND 1)"
  have used: "unat (bb_bits_used buf + 1) = Suc ?k"
    using assms by (simp add: unat_word_ariths)
  have eight: "bb_bits_used buf + 1 = 8 \<longleftrightarrow> ?k = 7"
    unfolding word_unat_eq_iff used by simp
  have sh: "bits_of ?b (Suc ?k) = bits_of (bb_bit_buffer buf) ?k @ [bit v i]"
    using assms by (rule bits_of_shift_in)
  show "bb_bits (write_bit v i buf) = bb_bits buf @ [bit v i]"
  proof (cases "?k = 7")
    case True
    with sh eight show ?thesis
      by (simp add: write_bit_def bb_bits_def bytes_bits_def Let_def)
  next
    case False
    with sh eight used show ?thesis
      by (simp add: write_bit_def bb_bits_def bytes_bits_def Let_def)
  qed
  show "unat (bb_bits_used (write_bit v i buf)) < 8"
    using assms eight used by (cases "?k = 7") (simp_all add: write_bit_def Let_def)
qed

lemma length_bytes_bits [simp]: "length (bytes_bits bs) = 8 * length bs"
  by (induction bs) (simp_all add: bytes_bits_def)

lemma bytes_bits_append [simp]: "bytes_bits (xs @ ys) = bytes_bits xs @ bytes_bits ys"
  by (simp add: bytes_bits_def)

lemma bytes_bits_Cons: "bytes_bits (b # bs) = bits_of b 8 @ bytes_bits bs"
  by (simp add: bytes_bits_def)

lemma bytes_bits_Nil [simp]: "bytes_bits [] = []"
  by (simp add: bytes_bits_def)

lemma code_bit_01: "bit (code_bit e b) 0 = (code_bit e b \<noteq> 0)"
proof -
  let ?x = "drop_bit (7 - b mod 8) (ce_code e ! (b div 8))"
  have "?x AND 1 = of_bool (odd ?x)"
    by (simp add: and_one_eq mod_2_eq_odd)
  then show ?thesis
    by (cases "odd ?x") (simp_all add: code_bit_def)
qed

lemma bitBufferWriteBits_1: "bitBufferWriteBits buf v (Suc 0) = write_bit v 0 buf"
  by (simp add: bitBufferWriteBits_def)

lemma write_code_prefix:
  "unat (bb_bits_used buf) < 8 \<Longrightarrow>
   bb_bits (fold (\<lambda>b bf. bitBufferWriteBits bf (code_bit e b) 1) [0..<k] buf) =
     bb_bits buf @ map (\<lambda>b. code_bit e b \<noteq> 0) [0..<k] \<and>
   unat (bb_bits_used (fold (\<lambda>b bf. bitBufferWriteBits bf (code_bit e b) 1) [0..<k] buf)) < 8"
proof (induction k)
  case 0
  then show ?case by simp
next
  case (Suc k)
  let ?b = "fold (\<lambda>b bf. bitBufferWriteBits bf (code_bit e b) 1) [0..<k] buf"
  from Suc have IH: "bb_bits ?b = bb_bits buf @ map (\<lambda>b. code_bit e b \<noteq> 0) [0..<k]"
    "unat (bb_bits_used ?b) < 8"
    by simp_all
  have step: "fold (\<lambda>b bf. bitBufferWriteBits bf (code_bit e b) 1) [0..<Suc k] buf =
              write_bit (code_bit e k) 0 ?b"
    by (simp add: bitBufferWriteBits_1)
  show ?case
    unfolding step using write_bit_bits[OF IH(2), of "code_bit e k" 0] IH(1)
    by (simp add: code_bit_01)
qed

lemma write_code_bits:
  assumes "unat (bb_bits_used buf) < 8"
  shows "bb_bits (write_code e buf) = bb_bits buf @ entry_bits e"
    and "unat (bb_bits_used (write_code e buf)) < 8"
  using write_code_prefix[OF assms, of e "unat (ce_len e)"]
  by (simp_all add: write_code_def entry_bits_def)

lemma compress_loop_None:
  "\<exists>d \<in> set dat. ce_len (codes d) = 0 \<Longrightarrow> compress_loop dat codes buf = None"
  by (induction dat arbitrary: buf) auto

lemma compress_loop_Some:
  assumes "\<forall>d \<in> set dat. ce_len (codes d) \<noteq> 0" "unat (bb_bits_used buf) < 8"
  shows "\<exists>buf'. compress_loop dat codes buf = Some buf' \<and>
           bb_bits buf' = bb_bits buf @ concat (map (\<lambda>d. entry_bits (codes d)) dat) \<and>
           unat (bb_bits_used buf') < 8"
  using assms
proof (induction dat arbitrary: buf)
  case Nil
  then show ?case by simp
next
  case (Cons d dat)
  note w = write_code_bits[OF Cons.prems(2), of "codes d"]
  from Cons.prems(1) have "\<forall>d \<in> set dat. ce_len (codes d) \<noteq> 0" by simp
  from Cons.IH[OF this w(2)] Cons.prems(1) w(1) show ?case
    by auto
qed

lemma bits_of_flush:
  fixes w :: uint8_t
  assumes "k \<le> 8"
  shows "bits_of (push_bit (8 - k) w) 8 = bits_of w k @ replicate (8 - k) False"
proof (rule nth_equalityI)
  show "length (bits_of (push_bit (8 - k) w) 8) = length (bits_of w k @ replicate (8 - k) False)"
    using assms by simp
next
  fix j
  assume "j < length (bits_of (push_bit (8 - k) w) 8)"
  then have j: "j < 8" by simp
  have l: "bits_of (push_bit (8 - k) w) 8 ! j = bit (push_bit (8 - k) w) (7 - j)"
    using nth_bits_of[OF j, of "push_bit (8 - k) w"] by simp
  show "bits_of (push_bit (8 - k) w) 8 ! j = (bits_of w k @ replicate (8 - k) False) ! j"
  proof (cases "j < k")
    case True
    with assms have "7 - j - (8 - k) = k - 1 - j" "8 - k \<le> 7 - j" by simp_all
    with True j show ?thesis
      unfolding l by (auto simp: nth_append nth_bits_of bit_push_bit_iff possible_bit_def)
  next
    case False
    with assms j have "\<not> 8 - k \<le> 7 - j" by simp
    with False j show ?thesis
      unfolding l by (simp add: nth_append bit_push_bit_iff)
  qed
qed

lemma bitBufferFlush_bits:
  assumes "unat (bb_bits_used buf) < 8"
  shows "bytes_bits (bb_data (bitBufferFlush buf)) =
           bb_bits buf @ replicate ((8 - unat (bb_bits_used buf)) mod 8) False"
    and "bb_bits_used (bitBufferFlush buf) = bb_bits_used buf"
proof -
  show "bb_bits_used (bitBufferFlush buf) = bb_bits_used buf"
    by (simp add: bitBufferFlush_def Let_def)
  show "bytes_bits (bb_data (bitBufferFlush buf)) =
           bb_bits buf @ replicate ((8 - unat (bb_bits_used buf)) mod 8) False"
  proof (cases "bb_bits_used buf > 0")
    case True
    then have "0 < unat (bb_bits_used buf)"
      by (simp add: word_less_nat_alt)
    with assms True show ?thesis
      by (simp add: bitBufferFlush_def Let_def bb_bits_def bytes_bits_Cons bits_of_flush)
  next
    case False
    then have "bb_bits_used buf = 0"
      by (simp add: word_gt_0)
    then show ?thesis
      by (simp add: bitBufferFlush_def bb_bits_def)
  qed
qed

lemma bb_bits_init [simp]: "bb_bits (bitBufferInit k) = []" "bb_bits_used (bitBufferInit k) = 0"
  by (simp_all add: bitBufferInit_def bb_bits_def)

lemma compress_Some:
  assumes "\<forall>d \<in> set dat. ce_len (codes d) \<noteq> 0"
  shows "\<exists>buf. compress dat codes = Some buf \<and> unat (bb_bits_used buf) < 8 \<and>
           bytes_bits (bb_data buf) =
             concat (map (\<lambda>d. entry_bits (codes d)) dat) @
             replicate ((8 - unat (bb_bits_used buf)) mod 8) False"
proof -
  have "unat (bb_bits_used (bitBufferInit (length dat))) < 8" by simp
  from compress_loop_Some[OF assms this] obtain buf' where
    b: "compress_loop dat codes (bitBufferInit (length dat)) = Some buf'"
       "bb_bits buf' = concat (map (\<lambda>d. entry_bits (codes d)) dat)"
       "unat (bb_bits_used buf') < 8"
    by auto
  from bitBufferFlush_bits[OF b(3)] b show ?thesis
    by (simp add: compress_def)
qed

lemma compress_None:
  "\<exists>d \<in> set dat. ce_len (codes d) = 0 \<Longrightarrow> compress dat codes = None"
  by (simp add: compress_def compress_loop_None)

subsection \<open>What the encoder writes\<close>

lemma length_entry_bits: "length (entry_bits e) = unat (ce_len e)" "length (entry_bits e) \<le> 255"
proof -
  show "length (entry_bits e) = unat (ce_len e)"
    by (simp add: entry_bits_def)
  have "unat (ce_len e) < 2 ^ LENGTH(8)"
    by (rule unsigned_less)
  then show "length (entry_bits e) \<le> 255"
    by (simp add: entry_bits_def)
qed

lemma length_code_stream:
  "length (concat (map (\<lambda>d. entry_bits (codes d)) dat)) \<le> 255 * length dat"
proof (induction dat)
  case Nil
  then show ?case by simp
next
  case (Cons d dat)
  with length_entry_bits(2)[of "codes d"] show ?case by simp
qed

lemma tree_size_nonzero: "symbols_of tbl \<noteq> [] \<Longrightarrow> snd (writeFreqTable tbl) \<noteq> 0"
proof -
  assume "symbols_of tbl \<noteq> []"
  then have "0 < length (symbols_of tbl)" by simp
  with tree_size_exact[of tbl] show ?thesis
    by (metis less_numeral_extra(3) unat_0)
qed

text \<open>The header \<^verbatim>\<open>main\<close> writes for the input \<open>dat\<close> and the filled bit buffer.\<close>

lemma encode_Inr:
  assumes "encode dat = Inr file"
  defines "tbl \<equiv> buildFreqTable dat"
  shows "\<exists>compressed.
           dat \<noteq> [] \<and> buildHuffmanTree tbl \<noteq> Null \<and>
           compress dat (make_codes (buildHuffmanTree tbl)) = Some compressed \<and>
           file = writeHeader \<lparr>h_magic = MAGIC_NUMBER, h_version = VERSION,
                    h_original_size = of_nat (length dat),
                    h_compressed_size = of_nat (length (bb_data compressed)),
                    h_checksum = crc32 dat,
                    h_tree_size = snd (writeFreqTable tbl),
                    h_padding_bits = (if bb_bits_used compressed > 0
                                      then 8 - bb_bits_used compressed else 0),
                    h_reserved = 0\<rparr> @ fst (writeFreqTable tbl) @ bb_data compressed"
  using assms(1) unfolding tbl_def
  by (auto simp: encode_def Let_def split: if_splits option.splits prod.splits)

lemma encode_Inr_iff:
  "(\<exists>file. encode dat = Inr file) \<longleftrightarrow>
     dat \<noteq> [] \<and> symbols_of (buildFreqTable dat) \<noteq> [] \<and>
     (\<forall>d \<in> set dat. ce_len (make_codes (buildHuffmanTree (buildFreqTable dat)) d) \<noteq> 0)"
proof -
  let ?tbl = "buildFreqTable dat"
  let ?codes = "make_codes (buildHuffmanTree ?tbl)"
  show ?thesis
  proof (cases "dat \<noteq> [] \<and> symbols_of ?tbl \<noteq> []")
    case False
    then show ?thesis
      by (auto simp: encode_def buildHuffmanTree_Null_iff Let_def)
  next
    case True
    then have ts: "snd (writeFreqTable ?tbl) \<noteq> 0" and root: "buildHuffmanTree ?tbl \<noteq> Null"
      by (simp_all add: tree_size_nonzero buildHuffmanTree_Null_iff)
    show ?thesis
    proof (cases "\<forall>d \<in> set dat. ce_len (?codes d) \<noteq> 0")
      case ok: True
      from compress_Some[OF ok] obtain buf where "compress dat ?codes = Some buf"
        by blast
      with True ts root ok show ?thesis
        by (auto simp: encode_def Let_def split: prod.splits)
    next
      case bad: False
      then have "compress dat ?codes = None"
        by (intro compress_None) blast
      with True bad show ?thesis
        by (auto simp: encode_def Let_def)
    qed
  qed
qed

lemma unat_padding:
  assumes "unat (u :: uint8_t) < 8"
  shows "unat (if u > 0 then 8 - u else 0) = (8 - unat u) mod 8"
proof (cases "u > 0")
  case True
  then have "0 < unat u" by (simp add: word_less_nat_alt)
  moreover have "unat (8 - u) = 8 - unat u"
    using assms by (subst unat_sub) (simp_all add: word_le_nat_alt)
  ultimately show ?thesis using True assms by simp
next
  case False
  then have "u = 0" by (simp add: word_gt_0)
  then show ?thesis by simp
qed

lemma read_container_written:
  assumes "symbols_of tbl \<noteq> []" "h_magic h = MAGIC_NUMBER" "\<not> h_version h > 1"
    and "h_tree_size h = snd (writeFreqTable tbl)"
    and "unat (h_compressed_size h) = length payload"
  shows "read_container (writeHeader h @ fst (writeFreqTable tbl) @ payload) = Inr (h, tbl, payload)"
proof -
  let ?file = "writeHeader h @ fst (writeFreqTable tbl) @ payload"
  from assms(1) have "0 < length (symbols_of tbl)" by simp
  then have len: "\<not> length ?file \<le> HEADER_SIZE" "\<not> length ?file < HEADER_SIZE"
    by (simp_all add: length_writeHeader length_table)
  have rh: "readHeader ?file = Inr (h, fst (writeFreqTable tbl) @ payload)"
    using len(2) assms(2,3)
    by (simp add: readHeader_def parseHeader_writeHeader length_writeHeader)
  show ?thesis
    unfolding read_container_def
    using len(1) assms(4,5) by (simp add: rh readFreqTable_writeFreqTable)
qed

lemma version_ok: "\<not> VERSION > 1"
  by (simp add: VERSION_def)

subsection \<open>Size accounting\<close>

lemma encode_layout:
  assumes "encode dat = Inr file" and "length dat < 2 ^ 56"
  defines "h \<equiv> parseHeader file"
  defines "payload \<equiv> drop (HEADER_SIZE + 5 * unat (h_tree_size h)) file"
  defines "codes \<equiv> make_codes (buildHuffmanTree (buildFreqTable dat))"
  shows "unat (h_original_size h) = length dat \<and>
         file = writeHeader h @ fst (writeFreqTable (buildFreqTable dat)) @ payload \<and>
         length (fst (writeFreqTable (buildFreqTable dat))) = 5 * unat (h_tree_size h) \<and>
         unat (h_compressed_size h) = length payload \<and>
         unat (h_padding_bits h) \<le> 7 \<and>
         bytes_bits payload =
           concat (map (\<lambda>d. entry_bits (codes d)) dat) @ replicate (unat (h_padding_bits h)) False"
proof -
  let ?tbl = "buildFreqTable dat"
  from encode_Inr[OF assms(1)] obtain compressed where
    c: "compress dat codes = Some compressed"
    and fl: "file = writeHeader \<lparr>h_magic = MAGIC_NUMBER, h_version = VERSION,
                    h_original_size = of_nat (length dat),
                    h_compressed_size = of_nat (length (bb_data compressed)),
                    h_checksum = crc32 dat,
                    h_tree_size = snd (writeFreqTable ?tbl),
                    h_padding_bits = (if bb_bits_used compressed > 0
                                      then 8 - bb_bits_used compressed else 0),
                    h_reserved = 0\<rparr> @ fst (writeFreqTable ?tbl) @ bb_data compressed"
    unfolding codes_def by blast
  have ok: "\<forall>d \<in> set dat. ce_len (codes d) \<noteq> 0"
    using c compress_None[of dat codes] by fastforce
  from compress_Some[OF ok] c have used: "unat (bb_bits_used compressed) < 8"
    and bits: "bytes_bits (bb_data compressed) =
               concat (map (\<lambda>d. entry_bits (codes d)) dat) @
               replicate ((8 - unat (bb_bits_used compressed)) mod 8) False"
    by auto
  have h: "h = \<lparr>h_magic = MAGIC_NUMBER, h_version = VERSION,
                    h_original_size = of_nat (length dat),
                    h_compressed_size = of_nat (length (bb_data compressed)),
                    h_checksum = crc32 dat,
                    h_tree_size = snd (writeFreqTable ?tbl),
                    h_padding_bits = (if bb_bits_used compressed > 0
                                      then 8 - bb_bits_used compressed else 0),
                    h_reserved = 0\<rparr>"
    unfolding h_def fl by (rule parseHeader_writeHeader)
  have payload: "payload = bb_data compressed"
    unfolding payload_def
    by (simp add: h tree_size_exact) (simp add: fl length_writeHeader length_table)
  have pad: "unat (h_padding_bits h) = (8 - unat (bb_bits_used compressed)) mod 8"
    using unat_padding[OF used] by (simp add: h)
  have "8 * length (bb_data compressed) \<le> 255 * length dat + 7"
  proof -
    have "8 * length (bb_data compressed) = length (bytes_bits (bb_data compressed))"
      by simp
    also have "\<dots> \<le> 255 * length dat + 7"
      unfolding bits using length_code_stream[of codes dat] by simp
    finally show ?thesis .
  qed
  with assms(2) have small: "length (bb_data compressed) < 2 ^ 64"
    by simp
  have "unat (h_original_size h) = length dat"
    using assms(2) by (simp add: h unat_of_nat)
  moreover have "file = writeHeader h @ fst (writeFreqTable ?tbl) @ payload"
    using fl by (simp add: h payload)
  moreover have "length (fst (writeFreqTable ?tbl)) = 5 * unat (h_tree_size h)"
    by (simp add: h length_table tree_size_exact)
  moreover have "unat (h_compressed_size h) = length payload"
    using small by (simp add: h payload unat_of_nat)
  moreover have "unat (h_padding_bits h) \<le> 7"
    unfolding pad using used by simp
  moreover have "bytes_bits payload =
           concat (map (\<lambda>d. entry_bits (codes d)) dat) @ replicate (unat (h_padding_bits h)) False"
    unfolding pad payload by (rule bits)
  ultimately show ?thesis by blast
qed

text \<open>
  C7: for every input buffer the encoder accepts, the header it writes has
  \<^verbatim>\<open>original_size\<close> equal to the input length and \<^verbatim>\<open>compressed_size\<close> equal to the
  number of payload bytes that follow the frequency table (which has \<^verbatim>\<open>tree_size\<close>
  entries of 5 bytes); \<^verbatim>\<open>padding_bits\<close> is at most 7, and the payload, read as a bit
  stream, is the codes of the input bytes followed by exactly \<^verbatim>\<open>padding_bits\<close> zero
  bits. The bound on the length stands for the C types (\<^verbatim>\<open>long\<close>, \<^verbatim>\<open>size_t\<close>) that no
  buffer in memory exceeds.
\<close>

theorem C7_size_accounting:
  assumes "encode dat = Inr file" and "length dat < 2 ^ 56"
  defines "h \<equiv> parseHeader file"
  defines "payload \<equiv> drop (HEADER_SIZE + 5 * unat (h_tree_size h)) file"
  defines "codes \<equiv> make_codes (buildHuffmanTree (buildFreqTable dat))"
  shows "unat (h_original_size h) = length dat \<and>
         file = writeHeader h @ fst (writeFreqTable (buildFreqTable dat)) @ payload \<and>
         length (fst (writeFreqTable (buildFreqTable dat))) = 5 * unat (h_tree_size h) \<and>
         unat (h_compressed_size h) = length payload \<and>
         unat (h_padding_bits h) \<le> 7 \<and>
         bytes_bits payload =
           concat (map (\<lambda>d. entry_bits (codes d)) dat) @ replicate (unat (h_padding_bits h)) False"
  unfolding h_def payload_def codes_def using assms(1,2) by (rule encode_layout)

lemma encode_aaabbc: "\<exists>file. encode [97, 97, 97, 98, 98, 99] = Inr file"
proof -
  have "symbols_of (buildFreqTable [97, 97, 97, 98, 98, 99]) \<noteq> []"
    by code_simp
  moreover have "\<forall>d \<in> set [97, 97, 97, 98, 98, 99].
      ce_len (make_codes (buildHuffmanTree (buildFreqTable [97, 97, 97, 98, 98, 99])) d) \<noteq> 0"
    by code_simp
  ultimately show ?thesis
    unfolding encode_Inr_iff by simp
qed

theorem C7_witness:
  "\<exists>file. encode [97, 97, 97, 98, 98, 99] = Inr file \<and>
     length [97, 97, 97, 98, 98, 99 :: uint8_t] < 2 ^ 56 \<and>
     unat (h_original_size (parseHeader file)) = 6 \<and>
     unat (h_compressed_size (parseHeader file)) =
       length (drop (HEADER_SIZE + 5 * unat (h_tree_size (parseHeader file))) file) \<and>
     unat (h_padding_bits (parseHeader file)) \<le> 7"
proof -
  from encode_aaabbc obtain fl where e: "encode [97, 97, 97, 98, 98, 99] = Inr fl"
    by blast
  have l: "length [97, 97, 97, 98, 98, 99 :: uint8_t] < 2 ^ 56"
    by simp
  from C7_size_accounting[OF e l] e show ?thesis
    by auto
qed

lemma read_container_encode:
  assumes "encode dat = Inr file" and "length dat < 2 ^ 56"
  shows "read_container file =
           Inr (parseHeader file, buildFreqTable dat,
                drop (HEADER_SIZE + 5 * unat (h_tree_size (parseHeader file))) file)"
proof -
  let ?h = "parseHeader file"
  let ?tbl = "buildFreqTable dat"
  let ?payload = "drop (HEADER_SIZE + 5 * unat (h_tree_size ?h)) file"
  note lay = encode_layout[OF assms]
  from lay have fl: "file = writeHeader ?h @ fst (writeFreqTable ?tbl) @ ?payload"
    and cs: "unat (h_compressed_size ?h) = length ?payload"
    by blast+
  from encode_Inr[OF assms(1)] obtain compressed :: BitBuffer where
    root: "buildHuffmanTree ?tbl \<noteq> Null"
    and fl': "file = writeHeader \<lparr>h_magic = MAGIC_NUMBER, h_version = VERSION,
                    h_original_size = of_nat (length dat),
                    h_compressed_size = of_nat (length (bb_data compressed)),
                    h_checksum = crc32 dat,
                    h_tree_size = snd (writeFreqTable ?tbl),
                    h_padding_bits = (if bb_bits_used compressed > 0
                                      then 8 - bb_bits_used compressed else 0),
                    h_reserved = 0\<rparr> @ fst (writeFreqTable ?tbl) @ bb_data compressed"
    by (simp, blast)
  have "?h = \<lparr>h_magic = MAGIC_NUMBER, h_version = VERSION,
                    h_original_size = of_nat (length dat),
                    h_compressed_size = of_nat (length (bb_data compressed)),
                    h_checksum = crc32 dat,
                    h_tree_size = snd (writeFreqTable ?tbl),
                    h_padding_bits = (if bb_bits_used compressed > 0
                                      then 8 - bb_bits_used compressed else 0),
                    h_reserved = 0\<rparr>"
    by (subst fl') (rule parseHeader_writeHeader)
  then have hd: "h_magic ?h = MAGIC_NUMBER" "\<not> h_version ?h > 1"
    "h_tree_size ?h = snd (writeFreqTable ?tbl)"
    by (simp_all add: version_ok)
  from root have syms: "symbols_of ?tbl \<noteq> []"
    by (simp add: buildHuffmanTree_Null_iff)
  from read_container_written[OF syms hd cs] fl show ?thesis
    by simp
qed

subsection \<open>Determinism\<close>

text \<open>
  C2: encoding is deterministic. In the model \<open>encode\<close> is a function of the input
  bytes alone, because \<^verbatim>\<open>main\<close> of enc.c reads nothing else once the file is in memory
  (no clock, no random source, and every byte it writes was stored before), so two runs
  on the same buffer give the same container. The frequency table that
  \<^verbatim>\<open>writeFreqTable\<close> persists is read back by \<^verbatim>\<open>readFreqTable\<close> exactly, whatever
  follows it in the file, so \<^verbatim>\<open>buildHuffmanTree\<close> (the same function text in enc.c and
  dec.c, over the same \<^verbatim>\<open>pqueue.h\<close>) builds in the decoder the tree it built in the
  encoder, and the code assigned to every symbol is the same. In particular the table
  the decoder reads from a container the encoder wrote is the table of the input.
\<close>

theorem C2_determinism:
  "(\<forall>dat'. dat' = dat \<longrightarrow> encode dat' = encode dat) \<and>
   (\<exists>tbl'. readFreqTable (fst (writeFreqTable tbl) @ rest) (snd (writeFreqTable tbl)) =
             Some (tbl', rest) \<and>
           buildHuffmanTree tbl' = buildHuffmanTree tbl \<and>
           (\<forall>c. make_codes (buildHuffmanTree tbl') c = make_codes (buildHuffmanTree tbl) c)) \<and>
   (\<forall>file. encode dat = Inr file \<and> length dat < 2 ^ 56 \<longrightarrow>
      (\<exists>h p. read_container file = Inr (h, buildFreqTable dat, p)))"
  using read_container_encode[of dat] by (simp add: readFreqTable_writeFreqTable)

theorem C2_witness:
  "encode [97, 97, 97, 98, 98, 99] = encode [97, 97, 97, 98, 98, 99] \<and>
   (\<exists>tbl'. readFreqTable (fst (writeFreqTable ((\<lambda>_. 0)(97 := 3, 98 := 2, 99 := 1))) @ [31, 0])
             (snd (writeFreqTable ((\<lambda>_. 0)(97 := 3, 98 := 2, 99 := 1)))) = Some (tbl', [31, 0]) \<and>
           buildHuffmanTree tbl' = buildHuffmanTree ((\<lambda>_. 0)(97 := 3, 98 := 2, 99 := 1))) \<and>
   (\<exists>fl h p. encode [97, 97, 97, 98, 98, 99] = Inr fl \<and>
      read_container fl = Inr (h, buildFreqTable [97, 97, 97, 98, 98, 99], p))"
proof -
  note inst = C2_determinism[of "[97, 97, 97, 98, 98, 99]"
      "(\<lambda>_. 0)(97 := 3, 98 := 2, 99 := 1)" "[31, 0]"]
  from encode_aaabbc obtain fl where e: "encode [97, 97, 97, 98, 98, 99] = Inr fl"
    by blast
  have l: "length [97, 97, 97, 98, 98, 99 :: uint8_t] < 2 ^ 56"
    by simp
  from inst e l have "\<exists>h p. read_container fl = Inr (h, buildFreqTable [97, 97, 97, 98, 98, 99], p)"
    by blast
  with e have "\<exists>fl h p. encode [97, 97, 97, 98, 98, 99] = Inr fl \<and>
      read_container fl = Inr (h, buildFreqTable [97, 97, 97, 98, 98, 99], p)"
    by blast
  moreover from inst have "\<exists>tbl'. readFreqTable (fst (writeFreqTable ((\<lambda>_. 0)(97 := 3, 98 := 2, 99 := 1))) @ [31, 0])
             (snd (writeFreqTable ((\<lambda>_. 0)(97 := 3, 98 := 2, 99 := 1)))) = Some (tbl', [31, 0]) \<and>
           buildHuffmanTree tbl' = buildHuffmanTree ((\<lambda>_. 0)(97 := 3, 98 := 2, 99 := 1))"
    by blast
  ultimately show ?thesis
    by blast
qed

subsection \<open>One distinct symbol\<close>

lemma buildFreqTable_count: "buildFreqTable dat c = of_nat (count_list dat c)"
proof -
  have "fold (\<lambda>b tbl. tbl(b := tbl b + 1)) dat t c = t c + of_nat (count_list dat c)"
    for t :: freq_table
    by (induction dat arbitrary: t) auto
  then show ?thesis by (simp add: buildFreqTable_def)
qed

lemma count_list_replicate_eq: "count_list (replicate n s) c = (if c = s then n else 0)"
  by (induction n) auto

lemma buildFreqTable_replicate: "buildFreqTable (replicate n s) = (\<lambda>_. 0)(s := of_nat n)"
  by (rule ext) (simp add: buildFreqTable_count count_list_replicate_eq)

lemma symbols_of_single:
  assumes "tbl s > 0" "\<forall>c. c \<noteq> s \<longrightarrow> tbl c = 0"
  shows "symbols_of tbl = [s]"
proof -
  have st: "set (symbols_of tbl) = {s}"
    using assms symbols_of_props(2)[of tbl] by (auto simp: word_gt_0)
  have "length (symbols_of tbl) = card (set (symbols_of tbl))"
    using symbols_of_props(1)[of tbl] by (simp add: distinct_card)
  with st have "length (symbols_of tbl) = 1"
    by simp
  then obtain x where "symbols_of tbl = [x]"
    by (cases "symbols_of tbl") auto
  with st show ?thesis by simp
qed

lemma symbols_of_zero: "symbols_of (\<lambda>_. 0) = []"
  by (simp add: symbols_of_def)

lemma fold_update_replicate:
  "k \<le> length xs \<Longrightarrow> fold (\<lambda>i out. out[i := c]) [0..<k] xs = replicate k c @ drop k xs"
proof (induction k)
  case 0
  then show ?case by simp
next
  case (Suc k)
  then have "fold (\<lambda>i out. out[i := c]) [0..<Suc k] xs = (replicate k c @ drop k xs)[k := c]"
    by simp
  also have "\<dots> = replicate k c @ (drop k xs)[0 := c]"
    by (simp add: list_update_append)
  also have "(drop k xs)[0 := c] = c # drop (Suc k) xs"
    using Suc.prems by (simp add: Cons_nth_drop_Suc[symmetric])
  finally show ?case
    by (simp add: replicate_append_same)
qed

lemma decompress_leaf:
  assumes "osz \<noteq> 0"
  shows "decompress mem reader (Node f s Null Null) osz pad =
           (if mem (unat osz) = None then None else Some (replicate (unat osz) s))"
proof (cases "mem (unat osz)")
  case None
  with assms show ?thesis
    by (simp add: decompress_def)
next
  case (Some block)
  with assms fold_update_replicate[of "unat osz" "map block [0..<unat osz]" s] show ?thesis
    by (simp add: decompress_def)
qed

lemma encode_header:
  assumes "encode dat = Inr file"
  shows "h_original_size (parseHeader file) = of_nat (length dat)"
    and "h_checksum (parseHeader file) = crc32 dat"
proof -
  from encode_Inr[OF assms] obtain compressed :: BitBuffer where
    fl: "file = writeHeader \<lparr>h_magic = MAGIC_NUMBER, h_version = VERSION,
                    h_original_size = of_nat (length dat),
                    h_compressed_size = of_nat (length (bb_data compressed)),
                    h_checksum = crc32 dat,
                    h_tree_size = snd (writeFreqTable (buildFreqTable dat)),
                    h_padding_bits = (if bb_bits_used compressed > 0
                                      then 8 - bb_bits_used compressed else 0),
                    h_reserved = 0\<rparr> @ fst (writeFreqTable (buildFreqTable dat)) @
                 bb_data compressed"
    by auto
  show "h_original_size (parseHeader file) = of_nat (length dat)"
    and "h_checksum (parseHeader file) = crc32 dat"
    by (subst fl, simp add: parseHeader_writeHeader)+
qed

text \<open>Decoding a container the encoder wrote comes down to \<^verbatim>\<open>decompress\<close>.\<close>

lemma decode_encode:
  assumes "encode dat = Inr file" and "length dat < 2 ^ 56"
    and "decompress mem
           (bitReaderInit (drop (HEADER_SIZE + 5 * unat (h_tree_size (parseHeader file))) file))
           (buildHuffmanTree (buildFreqTable dat)) (of_nat (length dat))
           (h_padding_bits (parseHeader file)) = Some dat"
  shows "decode verify mem file = Inr dat"
proof (rule decode_InrI[OF read_container_encode[OF assms(1,2)] refl])
  from encode_Inr[OF assms(1)] show "buildHuffmanTree (buildFreqTable dat) \<noteq> Null"
    by blast
  show "decompress mem
         (bitReaderInit (drop (HEADER_SIZE + 5 * unat (h_tree_size (parseHeader file))) file))
         (buildHuffmanTree (buildFreqTable dat)) (h_original_size (parseHeader file))
         (h_padding_bits (parseHeader file)) = Some dat"
    using assms(3) by (simp add: encode_header[OF assms(1)])
  show "verify \<longrightarrow> crc32 dat = h_checksum (parseHeader file)"
    by (simp add: encode_header[OF assms(1)])
qed

lemma decode_alloc_fail:
  assumes "encode dat = Inr file" and "length dat < 2 ^ 56" and "mem (length dat) = None"
  shows "decode verify mem file = Inl DecompressionFailed"
proof -
  from assms(2) have "unat (of_nat (length dat) :: uint64_t) = length dat"
    by (simp add: unat_of_nat)
  with assms(3) have "decompress mem r (buildHuffmanTree (buildFreqTable dat))
                        (of_nat (length dat)) pad = None" for r pad
    by (simp add: decompress_def)
  moreover from encode_Inr[OF assms(1)] have "buildHuffmanTree (buildFreqTable dat) \<noteq> Null"
    by blast
  ultimately show ?thesis
    using read_container_encode[OF assms(1,2)] encode_header(1)[OF assms(1)]
    by (simp add: decode_def)
qed

lemma decode_single:
  assumes "read_container file = Inr (h, tbl, p)"
    and "tbl s > 0" and "\<forall>c. c \<noteq> s \<longrightarrow> tbl c = 0" and "h_original_size h \<noteq> 0"
  shows "decode verify mem file =
           (if mem (unat (h_original_size h)) = None then Inl DecompressionFailed
            else if verify \<and> crc32 (replicate (unat (h_original_size h)) s) \<noteq> h_checksum h
            then Inl ChecksumFailed
            else Inr (replicate (unat (h_original_size h)) s))"
proof -
  have "buildHuffmanTree tbl = Node (tbl s) s Null Null"
    using buildHuffmanTree_single[OF symbols_of_single[OF assms(2,3)]] by (simp add: leaf_of_def)
  with assms(1,4) show ?thesis
    by (simp add: decode_def decompress_leaf)
qed

text \<open>
  C10 (counterexamples). The container \<open>aaa\<close> with \<^verbatim>\<open>original_size\<close> changed to \<open>2^60\<close>
  has one symbol in its table and a nonzero size, but no output: \<^verbatim>\<open>malloc\<close> refuses
  the block (here: every block of \<open>2^47\<close> bytes or more), \<^verbatim>\<open>decompress\<close> returns the
  null pointer at \<^verbatim>\<open>if (!output)\<close> and \<^verbatim>\<open>main\<close> stops with "Decompression failed". And
  checksum verification does not detect a changed payload: the container \<open>aaa\<close> with
  the payload byte 0 and with the payload byte 255 both pass it, since the checksum
  is taken over the decoded bytes.
\<close>

theorem C10_counterexample:
  "decode False (\<lambda>n. if n < 2 ^ 47 then Some (\<lambda>_. 0) else None)
     [70, 70, 85, 72, 1, 0, 0, 0, 0, 0, 0, 0, 0, 16, 1, 0, 0, 0, 0, 0, 0, 0,
      45, 115, 7, 240, 1, 0, 5, 0, 97, 3, 0, 0, 0, 0] = Inl DecompressionFailed \<and>
   decode True (\<lambda>n. if n < 2 ^ 47 then Some (\<lambda>_. 0) else None)
     [70, 70, 85, 72, 1, 0, 3, 0, 0, 0, 0, 0, 0, 0, 1, 0, 0, 0, 0, 0, 0, 0,
      45, 115, 7, 240, 1, 0, 5, 0, 97, 3, 0, 0, 0, 0] = Inr [97, 97, 97] \<and>
   decode True (\<lambda>n. if n < 2 ^ 47 then Some (\<lambda>_. 0) else None)
     [70, 70, 85, 72, 1, 0, 3, 0, 0, 0, 0, 0, 0, 0, 1, 0, 0, 0, 0, 0, 0, 0,
      45, 115, 7, 240, 1, 0, 5, 0, 97, 3, 0, 0, 0, 255] = Inr [97, 97, 97]"
proof -
  let ?big = "\<lparr>h_magic = 1213548102, h_version = 1, h_original_size = 1152921504606846976,
              h_compressed_size = 1, h_checksum = 4027020077, h_tree_size = 1,
              h_padding_bits = 5, h_reserved = 0\<rparr>"
  let ?h = "\<lparr>h_magic = 1213548102, h_version = 1, h_original_size = 3, h_compressed_size = 1,
            h_checksum = 4027020077, h_tree_size = 1, h_padding_bits = 5, h_reserved = 0\<rparr>"
  let ?tbl = "(\<lambda>_. 0)(97 := 3) :: freq_table"
  let ?mem = "\<lambda>n :: nat. if n < 2 ^ 47 then Some (\<lambda>_ :: nat. 0 :: uint8_t) else None"
  have r0: "read_container [70, 70, 85, 72, 1, 0, 0, 0, 0, 0, 0, 0, 0, 16, 1, 0, 0, 0, 0, 0, 0, 0,
      45, 115, 7, 240, 1, 0, 5, 0, 97, 3, 0, 0, 0, 0] = Inr (?big, ?tbl, [0])"
    by (simp add: read_container_eval)
  have r1: "read_container [70, 70, 85, 72, 1, 0, 3, 0, 0, 0, 0, 0, 0, 0, 1, 0, 0, 0, 0, 0, 0, 0,
      45, 115, 7, 240, 1, 0, 5, 0, 97, 3, 0, 0, 0, 0] = Inr (?h, ?tbl, [0])"
    by (simp add: read_container_eval)
  have r2: "read_container [70, 70, 85, 72, 1, 0, 3, 0, 0, 0, 0, 0, 0, 0, 1, 0, 0, 0, 0, 0, 0, 0,
      45, 115, 7, 240, 1, 0, 5, 0, 97, 3, 0, 0, 0, 255] = Inr (?h, ?tbl, [255])"
    by (simp add: read_container_eval)
  have s: "?tbl 97 > 0" "\<forall>c. c \<noteq> 97 \<longrightarrow> ?tbl c = 0"
    by simp_all
  have nz: "h_original_size ?big \<noteq> 0" "h_original_size ?h \<noteq> 0"
    by simp_all
  have u: "replicate (unat (h_original_size ?h)) (97 :: uint8_t) = [97, 97, 97]"
  proof -
    have "unat (h_original_size ?h) = Suc (Suc (Suc 0))"
      by simp
    then show ?thesis
      by (simp only: replicate.simps)
  qed
  have c: "crc32 [97, 97, 97] = h_checksum ?h"
    by (simp add: crc32_eval)
  from decode_single[OF r0 s nz(1), of False ?mem]
  have "decode False ?mem [70, 70, 85, 72, 1, 0, 0, 0, 0, 0, 0, 0, 0, 16, 1, 0, 0, 0, 0, 0, 0, 0,
      45, 115, 7, 240, 1, 0, 5, 0, 97, 3, 0, 0, 0, 0] = Inl DecompressionFailed"
    by simp
  moreover from decode_single[OF r1 s nz(2), of True ?mem]
  have "decode True ?mem [70, 70, 85, 72, 1, 0, 3, 0, 0, 0, 0, 0, 0, 0, 1, 0, 0, 0, 0, 0, 0, 0,
      45, 115, 7, 240, 1, 0, 5, 0, 97, 3, 0, 0, 0, 0] = Inr [97, 97, 97]"
    unfolding u c by simp
  moreover from decode_single[OF r2 s nz(2), of True ?mem]
  have "decode True ?mem [70, 70, 85, 72, 1, 0, 3, 0, 0, 0, 0, 0, 0, 0, 1, 0, 0, 0, 0, 0, 0, 0,
      45, 115, 7, 240, 1, 0, 5, 0, 97, 3, 0, 0, 0, 255] = Inr [97, 97, 97]"
    unfolding u c by simp
  ultimately show ?thesis
    by blast
qed

text \<open>
  C10, as amended: when the frequency table of a container has exactly one symbol \<open>s\<close>
  with a nonzero count and \<^verbatim>\<open>original_size\<close> is not 0, \<^verbatim>\<open>decompress\<close> never reads the
  bit reader: it returns the null pointer when \<^verbatim>\<open>malloc(original_size)\<close> fails and
  \<^verbatim>\<open>original_size\<close> copies of \<open>s\<close> otherwise. So the decoder stops with
  "Decompression failed" when the output block cannot be allocated; otherwise its
  output is these copies, unless verification is on and the header's checksum is not
  theirs, when it stops with the checksum error. The result does not depend on the
  payload, nor on what the block held: two files with the same header and table and
  any two payloads decode alike, with or without verification, so a changed payload
  is invisible to the tree walk and to checksum verification as well.
\<close>

theorem C10_payload_unread:
  assumes "read_container file1 = Inr (h, tbl, p1)" and "read_container file2 = Inr (h, tbl, p2)"
    and "tbl s > 0" and "\<forall>c. c \<noteq> s \<longrightarrow> tbl c = 0" and "h_original_size h \<noteq> 0"
  shows "decompress mem reader (buildHuffmanTree tbl) (h_original_size h) pad =
           (if mem (unat (h_original_size h)) = None then None
            else Some (replicate (unat (h_original_size h)) s)) \<and>
         decode verify mem file1 =
           (if mem (unat (h_original_size h)) = None then Inl DecompressionFailed
            else if verify \<and> crc32 (replicate (unat (h_original_size h)) s) \<noteq> h_checksum h
            then Inl ChecksumFailed
            else Inr (replicate (unat (h_original_size h)) s)) \<and>
         decode verify mem file1 = decode verify mem file2 \<and>
         ((mem (unat (h_original_size h)) = None) = (mem' (unat (h_original_size h)) = None) \<longrightarrow>
          decode verify mem file1 = decode verify mem' file2)"
proof -
  have "buildHuffmanTree tbl = Node (tbl s) s Null Null"
    using buildHuffmanTree_single[OF symbols_of_single[OF assms(3,4)]] by (simp add: leaf_of_def)
  then have "decompress mem reader (buildHuffmanTree tbl) (h_original_size h) pad =
           (if mem (unat (h_original_size h)) = None then None
            else Some (replicate (unat (h_original_size h)) s))"
    using assms(5) by (simp add: decompress_leaf)
  then show ?thesis
    using decode_single[OF assms(1,3,4,5), of verify mem]
      decode_single[OF assms(2,3,4,5), of verify mem]
      decode_single[OF assms(2,3,4,5), of verify mem']
    by simp
qed

theorem C10_witness:
  "decode True (\<lambda>_. Some (\<lambda>_. 0)) [70, 70, 85, 72, 1, 0, 3, 0, 0, 0, 0, 0, 0, 0, 1, 0, 0, 0, 0,
      0, 0, 0, 45, 115, 7, 240, 1, 0, 5, 0, 97, 3, 0, 0, 0, 0] =
   decode True (\<lambda>_. Some (\<lambda>_. 255)) [70, 70, 85, 72, 1, 0, 3, 0, 0, 0, 0, 0, 0, 0, 1, 0, 0, 0,
      0, 0, 0, 0, 45, 115, 7, 240, 1, 0, 5, 0, 97, 3, 0, 0, 0, 255] \<and>
   decode False (\<lambda>_. Some (\<lambda>_. 0)) [70, 70, 85, 72, 1, 0, 3, 0, 0, 0, 0, 0, 0, 0, 1, 0, 0, 0,
      0, 0, 0, 0, 45, 115, 7, 240, 1, 0, 5, 0, 97, 3, 0, 0, 0, 0] = Inr [97, 97, 97]"
proof -
  let ?h = "\<lparr>h_magic = 1213548102, h_version = 1, h_original_size = 3, h_compressed_size = 1,
            h_checksum = 4027020077, h_tree_size = 1, h_padding_bits = 5, h_reserved = 0\<rparr>"
  let ?tbl = "(\<lambda>_. 0)(97 := 3) :: freq_table"
  have r1: "read_container [70, 70, 85, 72, 1, 0, 3, 0, 0, 0, 0, 0, 0, 0, 1, 0, 0, 0, 0, 0, 0, 0,
      45, 115, 7, 240, 1, 0, 5, 0, 97, 3, 0, 0, 0, 0] = Inr (?h, ?tbl, [0])"
    by (simp add: read_container_eval)
  have r2: "read_container [70, 70, 85, 72, 1, 0, 3, 0, 0, 0, 0, 0, 0, 0, 1, 0, 0, 0, 0, 0, 0, 0,
      45, 115, 7, 240, 1, 0, 5, 0, 97, 3, 0, 0, 0, 255] = Inr (?h, ?tbl, [255])"
    by (simp add: read_container_eval)
  have s: "?tbl 97 > 0" "\<forall>c. c \<noteq> 97 \<longrightarrow> ?tbl c = 0" "h_original_size ?h \<noteq> 0"
    by simp_all
  have u: "replicate (unat (h_original_size ?h)) (97 :: uint8_t) = [97, 97, 97]"
  proof -
    have "unat (h_original_size ?h) = Suc (Suc (Suc 0))"
      by simp
    then show ?thesis
      by (simp only: replicate.simps)
  qed
  from C10_payload_unread[OF r1 r2 s, of "\<lambda>_. Some (\<lambda>_. 0)" "bitReaderInit []" 0 False
      "\<lambda>_. Some (\<lambda>_. 255)"]
  have f: "decode False (\<lambda>_. Some (\<lambda>_. 0)) [70, 70, 85, 72, 1, 0, 3, 0, 0, 0, 0, 0, 0, 0, 1, 0,
      0, 0, 0, 0, 0, 0, 45, 115, 7, 240, 1, 0, 5, 0, 97, 3, 0, 0, 0, 0] = Inr [97, 97, 97]"
    unfolding u by simp
  from conjunct2[OF conjunct2[OF conjunct2[OF C10_payload_unread[OF r1 r2 s,
      of "\<lambda>_. Some (\<lambda>_. 0)" "bitReaderInit []" 0 True "\<lambda>_. Some (\<lambda>_. 255)"]]]]
  have "decode True (\<lambda>_. Some (\<lambda>_. 0)) [70, 70, 85, 72, 1, 0, 3, 0, 0, 0, 0, 0, 0, 0, 1, 0, 0,
      0, 0, 0, 0, 0, 45, 115, 7, 240, 1, 0, 5, 0, 97, 3, 0, 0, 0, 0] =
    decode True (\<lambda>_. Some (\<lambda>_. 255)) [70, 70, 85, 72, 1, 0, 3, 0, 0, 0, 0, 0, 0, 0, 1, 0, 0,
      0, 0, 0, 0, 0, 45, 115, 7, 240, 1, 0, 5, 0, 97, 3, 0, 0, 0, 255]"
    by simp
  with f show ?thesis
    by blast
qed

lemma make_codes_leaf:
  "make_codes (Node f s Null Null) = no_codes(s := \<lparr>ce_code = [0], ce_len = 1\<rparr>)"
  by (simp add: make_codes_def)

lemma single_symbol_tree:
  assumes "n mod 2 ^ 32 \<noteq> 0"
  shows "buildHuffmanTree (buildFreqTable (replicate n s)) = Node (of_nat n) s Null Null"
proof -
  let ?tbl = "(\<lambda>_. 0)(s := of_nat n) :: freq_table"
  from assms have "(of_nat n :: uint32_t) \<noteq> 0"
    by (simp add: word_of_nat_eq_0_iff mod_eq_0_iff_dvd)
  then have "?tbl s > 0" "\<forall>c. c \<noteq> s \<longrightarrow> ?tbl c = 0"
    by (simp_all add: word_gt_0)
  from buildHuffmanTree_single[OF symbols_of_single[OF this]]
  have "buildHuffmanTree ?tbl = leaf_of ?tbl s" .
  also have "leaf_of ?tbl s = Node (of_nat n) s Null Null"
    by (simp add: leaf_of_def)
  finally show ?thesis
    by (simp only: buildFreqTable_replicate)
qed

text \<open>
  The frequency counters are 32 bits wide: 4294967296 copies of one byte count as 0,
  \<^verbatim>\<open>buildHuffmanTree\<close> returns the null pointer and \<^verbatim>\<open>main\<close> stops with
  "Failed to build Huffman tree".
\<close>

theorem C3_counterexample: "encode (replicate 4294967296 65) = Inl TreeBuildFailed"
proof -
  have "(of_nat 4294967296 :: uint32_t) = 0"
    by simp
  then have "buildFreqTable (replicate 4294967296 65) = (\<lambda>_. 0)"
    unfolding buildFreqTable_replicate by (intro ext) simp
  then have "buildHuffmanTree (buildFreqTable (replicate 4294967296 65)) = Null"
    by (simp add: buildHuffmanTree_Null symbols_of_zero)
  then show ?thesis
    by (simp add: encode_def)
qed

text \<open>
  C3, as amended: for every input that consists of one distinct symbol occurring \<open>n\<close>
  times, where \<open>n\<close> is not a multiple of \<open>2^32\<close> (and the buffer fits in memory), the
  tree is a single leaf, the encoder assigns the symbol the 1-bit code \<open>0\<close>, and the
  decoder emits the symbol exactly \<^verbatim>\<open>original_size\<close> = \<open>n\<close> times whatever the bit
  reader holds; decoding the encoder's container returns the input. The one way for
  the decoder not to do so is that it cannot allocate the \<open>n\<close> bytes of its output
  block: then it stops with "Decompression failed".
\<close>

theorem C3_single_symbol:
  assumes "n mod 2 ^ 32 \<noteq> 0" and "n < 2 ^ 56"
  shows "buildHuffmanTree (buildFreqTable (replicate n s)) = Node (of_nat n) s Null Null \<and>
         make_codes (buildHuffmanTree (buildFreqTable (replicate n s))) s =
           \<lparr>ce_code = [0], ce_len = 1\<rparr> \<and>
         decompress mem reader (buildHuffmanTree (buildFreqTable (replicate n s))) (of_nat n) pad =
           (if mem n = None then None else Some (replicate n s)) \<and>
         (\<exists>file. encode (replicate n s) = Inr file \<and>
                 h_original_size (parseHeader file) = of_nat n \<and>
                 decode verify mem file =
                   (if mem n = None then Inl DecompressionFailed else Inr (replicate n s)))"
proof -
  let ?dat = "replicate n s"
  let ?root = "buildHuffmanTree (buildFreqTable ?dat)"
  note root = single_symbol_tree[OF assms(1), of s]
  have codes: "make_codes ?root s = \<lparr>ce_code = [0], ce_len = 1\<rparr>"
    by (simp add: root make_codes_leaf)
  from assms have n: "n \<noteq> 0" "unat (of_nat n :: uint64_t) = n" "(of_nat n :: uint64_t) \<noteq> 0"
    by (auto simp: unat_of_nat word_of_nat_eq_0_iff dest: dvd_imp_le)
  have dec: "decompress m r ?root (of_nat n) p = (if m n = None then None else Some ?dat)"
    for m r p
    using n by (simp add: root decompress_leaf)
  have "\<exists>file. encode ?dat = Inr file"
    unfolding encode_Inr_iff using n(1) codes
    by (simp add: buildHuffmanTree_Null_iff[symmetric] root)
  then obtain fl where e: "encode ?dat = Inr fl"
    by blast
  have "decode verify mem fl = (if mem n = None then Inl DecompressionFailed else Inr ?dat)"
  proof (cases "mem n = None")
    case True
    with assms(2) decode_alloc_fail[OF e, of mem verify] show ?thesis
      by simp
  next
    case False
    have "decode verify mem fl = Inr ?dat"
      using assms(2) False by (intro decode_encode[OF e]) (simp_all add: dec)
    with False show ?thesis
      by simp
  qed
  with e encode_header(1)[OF e] root codes dec[of mem reader pad] show ?thesis
    by auto
qed

theorem C3_witness:
  "buildHuffmanTree (buildFreqTable (replicate 1000 65)) = Node 1000 65 Null Null \<and>
   make_codes (buildHuffmanTree (buildFreqTable (replicate 1000 65))) 65 =
     \<lparr>ce_code = [0], ce_len = 1\<rparr> \<and>
   (\<exists>file. encode (replicate 1000 65) = Inr file \<and>
           decode True (\<lambda>_. Some (\<lambda>_. 0)) file = Inr (replicate 1000 65))"
proof -
  have "(1000 :: nat) mod 2 ^ 32 \<noteq> 0" "(1000 :: nat) < 2 ^ 56"
    by simp_all
  from C3_single_symbol[OF this, of 65 "\<lambda>_. Some (\<lambda>_. 0)" "bitReaderInit []" 0 True] show ?thesis
    by (auto simp: make_codes_leaf)
qed

subsection \<open>The codes that generateCodes assigns\<close>

lemma acc_of_snoc: "acc_of (p @ [b]) = push_bit 1 (acc_of p) OR (if b then 1 else 0)"
  by (simp add: acc_of_def)

lemma acc_of_Nil [simp]: "acc_of [] = 0"
  by (simp add: acc_of_def)

lemma bit_acc_of:
  "k < length p \<Longrightarrow> k < 32 \<Longrightarrow> bit (acc_of p) k = p ! (length p - 1 - k)"
proof (induction p arbitrary: k rule: rev_induct)
  case Nil
  then show ?case by simp
next
  case (snoc b p)
  show ?case
  proof (cases k)
    case 0
    have "bit (push_bit 1 (acc_of p) OR (if b then 1 else 0 :: uint32_t)) 0 = b"
      by (simp add: bit_or_iff bit_push_bit_iff bit_1_iff del: push_bit_Suc push_bit_eq_mult)
    with 0 show ?thesis
      by (simp add: acc_of_snoc del: push_bit_Suc push_bit_eq_mult)
  next
    case (Suc j)
    with snoc.prems have j: "j < length p" "j < 32" by simp_all
    have "bit (push_bit 1 (acc_of p) OR (if b then 1 else 0 :: uint32_t)) (Suc j) =
          bit (acc_of p) j"
      using snoc.prems Suc
      by (simp add: bit_or_iff bit_push_bit_iff bit_1_iff possible_bit_def
               del: push_bit_Suc push_bit_eq_mult)
    also have "\<dots> = p ! (length p - 1 - j)"
      by (rule snoc.IH[OF j])
    finally have "bit (acc_of (p @ [b])) (Suc j) = p ! (length p - 1 - j)"
      by (simp only: acc_of_snoc)
    moreover have "length p - Suc j < length p"
      using j by arith
    ultimately show ?thesis
      using Suc by (simp add: nth_append)
  qed
qed

lemma code_test: "(drop_bit k (w :: 'a::len word) AND 1 \<noteq> 0) = bit w k"
  by (simp add: and_one_eq mod_2_eq_odd bit_iff_odd_drop_bit)

lemma bit_set_mask:
  "i < 8 \<Longrightarrow> bit ((x :: uint8_t) OR push_bit i 1) k = (bit x k \<or> k = i)"
  by (auto simp: bit_or_iff bit_exp_iff possible_bit_def)

lemma length_pack_prefix [simp]:
  "length (fold (set_code_bit code depth) [0..<m] bs) = length bs"
  by (induction m) (simp_all add: set_code_bit_def)

lemma pack_prefix_bit:
  assumes "m \<le> depth" "b < depth"
  shows "bit (fold (set_code_bit code depth) [0..<m] (replicate ((depth + 7) div 8) 0) ! (b div 8))
             (7 - b mod 8) = (b < m \<and> bit code ((depth - 1 - b) mod 32))"
  using assms(1)
proof (induction m)
  case 0
  from assms(2) have "b div 8 < (depth + 7) div 8" by simp
  then show ?case by simp
next
  case (Suc m)
  let ?bs = "fold (set_code_bit code depth) [0..<m] (replicate ((depth + 7) div 8) 0)"
  from Suc have IH: "bit (?bs ! (b div 8)) (7 - b mod 8) =
                     (b < m \<and> bit code ((depth - 1 - b) mod 32))"
    by simp
  have step: "fold (set_code_bit code depth) [0..<Suc m] (replicate ((depth + 7) div 8) 0) =
              set_code_bit code depth m ?bs"
    by simp
  from Suc.prems have mlen: "m div 8 < length ?bs" by simp
  show ?case
  proof (cases "bit code ((depth - 1 - m) mod 32)")
    case False
    then have "set_code_bit code depth m ?bs = ?bs"
      by (simp add: set_code_bit_def code_test)
    with IH False show ?thesis
      unfolding step by (cases "b = m") (auto simp: less_Suc_eq)
  next
    case True
    then have upd: "set_code_bit code depth m ?bs =
                    ?bs[m div 8 := (?bs ! (m div 8)) OR push_bit (7 - m mod 8) 1]"
      by (simp add: set_code_bit_def code_test)
    show ?thesis
    proof (cases "b div 8 = m div 8")
      case same: True
      have "(7 - b mod 8 = 7 - m mod 8) = (b = m)"
      proof -
        define x where "x = b mod 8"
        define y where "y = m mod 8"
        have "x < 8" "y < 8" by (simp_all add: x_def y_def)
        then have "(7 - x = 7 - y) = (x = y)" by arith
        moreover have "(x = y) = (b = m)"
          unfolding x_def y_def using same by (metis div_mult_mod_eq)
        ultimately show ?thesis
          unfolding x_def y_def by simp
      qed
      then have "bit ((?bs ! (m div 8)) OR push_bit (7 - m mod 8) 1) (7 - b mod 8) =
                 (bit (?bs ! (m div 8)) (7 - b mod 8) \<or> b = m)"
        by (subst bit_set_mask) simp_all
      with same mlen IH True show ?thesis
        unfolding step upd by (auto simp: less_Suc_eq simp del: push_bit_of_1)
    next
      case False
      then have "b \<noteq> m" by auto
      with False IH show ?thesis
        unfolding step upd by (auto simp: less_Suc_eq)
    qed
  qed
qed

lemma pack_code_bit:
  "b < depth \<Longrightarrow>
   bit (pack_code code depth ! (b div 8)) (7 - b mod 8) = bit code ((depth - 1 - b) mod 32)"
  using pack_prefix_bit[of depth depth b code] by (simp add: pack_code_def)

lemma code_bit_nonzero: "(code_bit e b \<noteq> 0) = bit (ce_code e ! (b div 8)) (7 - b mod 8)"
proof -
  let ?x = "drop_bit (7 - b mod 8) (ce_code e ! (b div 8))"
  have "?x AND 1 = of_bool (odd ?x)"
    by (simp add: and_one_eq mod_2_eq_odd)
  then have "(code_bit e b \<noteq> 0) = odd ?x"
    by (cases "odd ?x") (simp_all add: code_bit_def)
  then show ?thesis
    by (simp add: bit_iff_odd_drop_bit)
qed

lemma entry_bits_pack:
  assumes "d < 256"
  shows "entry_bits \<lparr>ce_code = pack_code code d, ce_len = of_nat d\<rparr> =
         map (\<lambda>b. bit code ((d - 1 - b) mod 32)) [0..<d]"
proof -
  from assms have "unat (of_nat d :: uint8_t) = d"
    by (simp add: unat_of_nat)
  then show ?thesis
    by (simp add: entry_bits_def code_bit_nonzero pack_code_bit)
qed

lemma entry_bits_entry_for_any:
  assumes "length p < 256"
  shows "entry_bits (entry_for p) =
         map (\<lambda>b. p ! (length p - 1 - (length p - 1 - b) mod 32)) [0..<length p]"
proof -
  let ?n = "length p"
  have "entry_bits (entry_for p) = map (\<lambda>b. bit (acc_of p) ((?n - 1 - b) mod 32)) [0..<?n]"
    unfolding entry_for_def using assms by (intro entry_bits_pack)
  also have "\<dots> = map (\<lambda>b. p ! (?n - 1 - (?n - 1 - b) mod 32)) [0..<?n]"
  proof (rule map_cong[OF refl])
    fix b assume "b \<in> set [0..<?n]"
    then have b: "b < ?n" by simp
    have "(?n - 1 - b) mod 32 \<le> ?n - 1 - b"
      by (rule mod_less_eq_dividend)
    with b have "(?n - 1 - b) mod 32 < ?n" by arith
    moreover have "(?n - 1 - b) mod 32 < 32" by simp
    ultimately show "bit (acc_of p) ((?n - 1 - b) mod 32) = p ! (?n - 1 - (?n - 1 - b) mod 32)"
      by (rule bit_acc_of)
  qed
  finally show ?thesis .
qed

lemma entry_bits_entry_for:
  assumes "length p \<le> 32"
  shows "entry_bits (entry_for p) = p"
proof -
  from assms have "length p < 256" by simp
  from entry_bits_entry_for_any[OF this]
  have "entry_bits (entry_for p) =
        map (\<lambda>b. p ! (length p - 1 - (length p - 1 - b) mod 32)) [0..<length p]" .
  also have "\<dots> = p"
  proof (rule nth_equalityI)
    show "length (map (\<lambda>b. p ! (length p - 1 - (length p - 1 - b) mod 32)) [0..<length p]) =
          length p"
      by simp
  next
    fix i
    assume "i < length (map (\<lambda>b. p ! (length p - 1 - (length p - 1 - b) mod 32)) [0..<length p])"
    then have i: "i < length p" by simp
    with assms have "(length p - 1 - i) mod 32 = length p - 1 - i"
      "length p - 1 - (length p - 1 - i) = i"
      by simp_all
    with i show "map (\<lambda>b. p ! (length p - 1 - (length p - 1 - b) mod 32)) [0..<length p] ! i =
                 p ! i"
      by simp
  qed
  finally show ?thesis .
qed

lemma ce_len_entry_for: "0 < length p \<Longrightarrow> length p < 256 \<Longrightarrow> ce_len (entry_for p) \<noteq> 0"
proof -
  assume "0 < length p" "length p < 256"
  then have "unat (of_nat (length p) :: uint8_t) \<noteq> 0"
    by (simp add: unat_of_nat)
  then show ?thesis
    by (auto simp: entry_for_def)
qed

lemma generateCodes_eq:
  "t \<noteq> Null \<Longrightarrow> strict t \<Longrightarrow> distinct (leaf_syms t) \<Longrightarrow>
   generateCodes t codes (acc_of p) (length p) =
     (\<lambda>s. if s \<in> set (leaf_syms t) then entry_for (p @ path_to t s) else codes s)"
proof (induction t arbitrary: codes p)
  case Null
  then show ?case by simp
next
  case (Node f c l r)
  show ?case
  proof (cases "l = Null \<and> r = Null")
    case True
    then show ?thesis
      by (auto simp: entry_for_def)
  next
    case False
    with Node.prems have lr: "l \<noteq> Null" "r \<noteq> Null" "strict l" "strict r"
      and d: "distinct (leaf_syms l)" "distinct (leaf_syms r)"
        "set (leaf_syms l) \<inter> set (leaf_syms r) = {}"
      by auto
    have accl: "push_bit 1 (acc_of p) = acc_of (p @ [False])"
      and accr: "push_bit 1 (acc_of p) OR 1 = acc_of (p @ [True])"
      by (simp_all add: acc_of_snoc del: push_bit_Suc push_bit_eq_mult)
    have gl: "generateCodes l cs (push_bit 1 (acc_of p)) (length p + 1) =
              generateCodes l cs (acc_of (p @ [False])) (length (p @ [False]))" for cs
      using accl by simp
    have gr: "generateCodes r cs (push_bit 1 (acc_of p) OR 1) (length p + 1) =
              generateCodes r cs (acc_of (p @ [True])) (length (p @ [True]))" for cs
      using accr by simp
    let ?codes1 = "generateCodes l codes (push_bit 1 (acc_of p)) (length p + 1)"
    have c1: "?codes1 = (\<lambda>s. if s \<in> set (leaf_syms l) then entry_for ((p @ [False]) @ path_to l s)
                               else codes s)"
      unfolding gl by (rule Node.IH(1)[OF lr(1,3) d(1)])
    have "generateCodes (Node f c l r) codes (acc_of p) (length p) =
          generateCodes r ?codes1 (push_bit 1 (acc_of p) OR 1) (length p + 1)"
      using False lr by (simp del: push_bit_Suc push_bit_eq_mult)
    also have "\<dots> = (\<lambda>s. if s \<in> set (leaf_syms r) then entry_for ((p @ [True]) @ path_to r s)
                           else ?codes1 s)"
      unfolding gr by (rule Node.IH(2)[OF lr(2,4) d(2)])
    also have "\<dots> = (\<lambda>s. if s \<in> set (leaf_syms (Node f c l r))
                           then entry_for (p @ path_to (Node f c l r) s) else codes s)"
      unfolding c1 using False d(3) by (intro ext) auto
    finally show ?thesis .
  qed
qed

lemma length_path_to: "length (path_to t s) \<le> height t"
  by (induction t) auto

lemma path_to_nonempty: "t \<noteq> Null \<Longrightarrow> \<not> is_leaf t \<Longrightarrow> path_to t s \<noteq> []"
  by (cases t) (auto simp: is_leaf_def)

lemma make_codes_internal:
  assumes "t \<noteq> Null" "\<not> is_leaf t" "strict t" "distinct (leaf_syms t)" "s \<in> set (leaf_syms t)"
  shows "make_codes t s = entry_for (path_to t s)"
proof -
  from assms(1,2) have "left t \<noteq> Null \<or> right t \<noteq> Null"
    by (auto simp: is_leaf_def)
  then have "make_codes t = generateCodes t no_codes (acc_of []) (length ([] :: bool list))"
    by (simp add: make_codes_def)
  with generateCodes_eq[OF assms(1,3,4), of no_codes "[]"] assms(5) show ?thesis
    by simp
qed

subsection \<open>Reading bits\<close>

lemma bits_of_8_nonempty [simp]: "bits_of x 8 \<noteq> []"
proof
  assume "bits_of x 8 = []"
  then have "length (bits_of x 8) = 0" by simp
  then show False by simp
qed

lemma bits_of_shift_out:
  fixes x :: uint8_t
  shows "bits_of (push_bit 1 x) 8 = tl (bits_of x 8) @ [False]"
proof (rule nth_equalityI)
  show "length (bits_of (push_bit 1 x) 8) = length (tl (bits_of x 8) @ [False])"
    by simp
next
  fix j
  assume "j < length (bits_of (push_bit 1 x) 8)"
  then have j: "j < 8" by simp
  have l: "bits_of (push_bit 1 x) 8 ! j = bit (push_bit 1 x) (7 - j)"
    using nth_bits_of[OF j, of "push_bit 1 x"] by simp
  show "bits_of (push_bit 1 x) 8 ! j = (tl (bits_of x 8) @ [False]) ! j"
  proof (cases "j = 7")
    case True
    then show ?thesis
      unfolding l by (simp add: nth_append bit_push_bit_iff del: push_bit_Suc push_bit_eq_mult)
  next
    case False
    with j have j6: "j < 7" "Suc j < 8" by simp_all
    then have "7 - j - 1 = 7 - Suc j" "1 \<le> 7 - j" by simp_all
    then have "bit (push_bit 1 x) (7 - j) = bit x (7 - Suc j)"
      by (auto simp: bit_push_bit_iff possible_bit_def simp del: push_bit_Suc push_bit_eq_mult)
    also have "\<dots> = bits_of x 8 ! Suc j"
      using nth_bits_of[OF j6(2), of x] by simp
    finally show ?thesis
      unfolding l using j6 by (simp add: nth_append nth_tl)
  qed
qed

lemma hd_bits_of_8: "hd (bits_of (x :: uint8_t) 8) = bit x 7"
  using nth_bits_of[of 0 8 x] by (simp add: hd_conv_nth)

lemma top_bit: "uint (drop_bit 7 (x :: uint8_t) AND 1) = (if bit x 7 then 1 else 0)"
proof -
  have "drop_bit 7 x AND 1 = of_bool (odd (drop_bit 7 x))"
    by (simp add: and_one_eq mod_2_eq_odd)
  then show ?thesis
    by (simp add: bit_iff_odd_drop_bit)
qed

lemma take_top_bit_bits:
  assumes "0 < unat (br_bits_available r)" "unat (br_bits_available r) \<le> 8"
    and "br_pos r \<le> length (br_data r)"
  shows "\<exists>r'. take_top_bit r = ((if hd (br_bits r) then 1 else 0), r') \<and> br_ok r' \<and>
              br_bits r' = tl (br_bits r) \<and> br_bits r \<noteq> []"
proof -
  let ?k = "unat (br_bits_available r)"
  let ?x = "br_bit_buffer r"
  have k1: "unat (br_bits_available r - 1) = ?k - 1"
    using assms(1) by (simp add: unat_minus_one unat_gt_0)
  have ne: "take ?k (bits_of ?x 8) \<noteq> []"
    using assms(1) by simp
  then have hd: "hd (br_bits r) = bit ?x 7"
    using assms(1) by (simp add: br_bits_def hd_bits_of_8)
  have "take (?k - 1) (bits_of (push_bit 1 ?x) 8) =
        take (?k - 1) (tl (bits_of ?x 8) @ [False])"
    by (simp only: bits_of_shift_out)
  also have "\<dots> = take (?k - 1) (tl (bits_of ?x 8))"
    using assms(2) by simp
  also have "\<dots> = tl (take ?k (bits_of ?x 8))"
    by (simp add: tl_take)
  finally have "take (?k - 1) (bits_of (push_bit 1 ?x) 8) = tl (take ?k (bits_of ?x 8))" .
  with ne have "br_bits (snd (take_top_bit r)) = tl (br_bits r)"
    by (simp add: take_top_bit_def br_bits_def k1 del: push_bit_Suc push_bit_eq_mult)
  moreover have "br_ok (snd (take_top_bit r))"
    using assms by (simp add: take_top_bit_def br_ok_def k1)
  moreover have "fst (take_top_bit r) = (if hd (br_bits r) then 1 else 0)"
    unfolding hd by (simp add: take_top_bit_def top_bit)
  moreover have "br_bits r \<noteq> []"
    using ne by (simp add: br_bits_def)
  ultimately show ?thesis
    by (metis prod.collapse)
qed

lemma readBit_Cons:
  assumes "br_ok r" "br_bits r = b # bs"
  shows "\<exists>r'. bitReaderReadBit r = ((if b then 1 else 0), r') \<and> br_ok r' \<and> br_bits r' = bs"
proof (cases "br_bits_available r = 0")
  case False
  then have "0 < unat (br_bits_available r)"
    by (simp add: unat_gt_0)
  from take_top_bit_bits[OF this] assms False show ?thesis
    by (auto simp: bitReaderReadBit_def br_ok_def)
next
  case True
  with assms(2) have "bytes_bits (drop (br_pos r) (br_data r)) = b # bs"
    by (simp add: br_bits_def)
  then have pos: "br_pos r < length (br_data r)"
    by (cases "br_pos r < length (br_data r)") auto
  let ?r1 = "r\<lparr>br_bit_buffer := br_data r ! br_pos r, br_pos := br_pos r + 1,
                br_bits_available := 8\<rparr>"
  have "br_bits ?r1 = br_bits r"
    using True pos by (simp add: br_bits_def bytes_bits_Cons Cons_nth_drop_Suc[symmetric])
  moreover have "0 < unat (br_bits_available ?r1)" "unat (br_bits_available ?r1) \<le> 8"
    "br_pos ?r1 \<le> length (br_data ?r1)"
    using pos by simp_all
  from take_top_bit_bits[OF this]
  have "\<exists>r'. take_top_bit ?r1 = ((if hd (br_bits ?r1) then 1 else 0), r') \<and> br_ok r' \<and>
              br_bits r' = tl (br_bits ?r1)"
    by blast
  ultimately show ?thesis
    using True pos assms(2) by (auto simp: bitReaderReadBit_def)
qed

lemma bitReaderInit_bits [simp]:
  "br_ok (bitReaderInit p)" "br_bits (bitReaderInit p) = bytes_bits p"
  by (simp_all add: bitReaderInit_def br_ok_def br_bits_def)

subsection \<open>Walking the tree along a code\<close>

lemma leaf_syms_leaf: "is_leaf t \<Longrightarrow> leaf_syms t = [ch t]"
  by (cases t) (auto simp: is_leaf_def)

lemma walk_to_leaf:
  assumes "t \<noteq> Null" "\<not> is_leaf t" "strict t" "s \<in> set (leaf_syms t)"
    and "br_ok r" "br_bits r = path_to t s @ rest" "opos < unat osz"
  shows "\<exists>r'. br_ok r' \<and> br_bits r' = rest \<and>
           decompress_loop r root t opos outb osz pad =
           decompress_loop r' root root (opos + 1) (outb[opos := s]) osz pad"
  using assms
proof (induction t arbitrary: r)
  case Null
  then show ?case by simp
next
  case (Node f c l rt)
  from Node.prems(1-3) have lr: "l \<noteq> Null" "rt \<noteq> Null" "strict l" "strict rt"
    by (auto simp: is_leaf_def)
  define b where "b = (s \<in> set (leaf_syms rt) \<and> s \<notin> set (leaf_syms l))"
  define t' where "t' = (if s \<in> set (leaf_syms l) then l else rt)"
  from Node.prems(4) lr have s': "s \<in> set (leaf_syms t')"
    by (auto simp: t'_def)
  have path: "path_to (Node f c l rt) s = (s \<notin> set (leaf_syms l)) # path_to t' s"
    using lr by (simp add: t'_def)
  from lr have t': "t' \<noteq> Null" "strict t'"
    by (simp_all add: t'_def)
  from readBit_Cons[OF Node.prems(5)] Node.prems(6) path
  obtain r1 where r1: "bitReaderReadBit r = ((if s \<notin> set (leaf_syms l) then 1 else 0), r1)"
    "br_ok r1" "br_bits r1 = path_to t' s @ rest"
    by auto
  let ?bit = "(if s \<notin> set (leaf_syms l) then 1 else 0) :: int"
  have nb: "\<not> ?bit < 0" by simp
  have nxt: "t' = (if ?bit = 0 then left (Node f c l rt) else right (Node f c l rt))"
    by (simp add: t'_def)
  show ?case
  proof (cases "is_leaf t'")
    case True
    with s' have s: "ch t' = s" and p: "path_to t' s = []"
      by (cases t'; auto simp: is_leaf_def)+
    from True have lf: "left t' = Null \<and> right t' = Null"
      by (simp add: is_leaf_def)
    have "decompress_loop r root (Node f c l rt) opos outb osz pad =
          decompress_loop r1 root root (opos + 1) (outb[opos := ch t']) osz pad"
      by (rule decompress_loop_leaf[OF Node.prems(7) r1(1) nb nxt t'(1) lf])
    with r1 s p show ?thesis
      by auto
  next
    case False
    then have nl: "\<not> (left t' = Null \<and> right t' = Null)"
      using t'(1) by (simp add: is_leaf_def)
    have step: "decompress_loop r root (Node f c l rt) opos outb osz pad =
          decompress_loop r1 root t' opos outb osz pad"
      by (rule decompress_loop_inner[OF Node.prems(7) r1(1) nb nxt t'(1) nl])
    have "\<exists>r'. br_ok r' \<and> br_bits r' = rest \<and>
           decompress_loop r1 root t' opos outb osz pad =
           decompress_loop r' root root (opos + 1) (outb[opos := s]) osz pad"
    proof (cases "s \<in> set (leaf_syms l)")
      case True
      then have "t' = l" by (simp add: t'_def)
      with Node.IH(1)[of r1] t' False s' r1 Node.prems(7) show ?thesis
        by simp
    next
      case False
      then have "t' = rt" by (simp add: t'_def)
      with Node.IH(2)[of r1] t' \<open>\<not> is_leaf t'\<close> s' r1 Node.prems(7) show ?thesis
        by simp
    qed
    with step show ?thesis by simp
  qed
qed

lemma decode_stream:
  assumes "root \<noteq> Null" "\<not> is_leaf root" "strict root"
    and "set dat \<subseteq> set (leaf_syms root)"
    and "br_ok r" "br_bits r = concat (map (path_to root) dat) @ rest"
    and "opos + length dat = unat osz" "length outb = unat osz"
  shows "decompress_loop r root root opos outb osz pad = Some (take opos outb @ dat)"
  using assms(4-8)
proof (induction dat arbitrary: r opos outb)
  case Nil
  then show ?case
    by (simp add: decompress_loop_done)
next
  case (Cons d dat)
  from Cons.prems have d: "d \<in> set (leaf_syms root)" and lt: "opos < unat osz"
    and bits: "br_bits r = path_to root d @ (concat (map (path_to root) dat) @ rest)"
    by simp_all
  from walk_to_leaf[OF assms(1-3) d Cons.prems(2) bits lt, of root outb pad]
  obtain r' where r': "br_ok r'" "br_bits r' = concat (map (path_to root) dat) @ rest"
    "decompress_loop r root root opos outb osz pad =
     decompress_loop r' root root (opos + 1) (outb[opos := d]) osz pad"
    by blast
  have "decompress_loop r' root root (opos + 1) (outb[opos := d]) osz pad =
        Some (take (opos + 1) (outb[opos := d]) @ dat)"
    using Cons.prems r'(1,2) by (intro Cons.IH) simp_all
  moreover have "take (opos + 1) (outb[opos := d]) = take opos outb @ [d]"
    using lt Cons.prems(5) by (simp add: take_Suc_conv_app_nth)
  ultimately show ?case
    using r'(3) by simp
qed

subsection \<open>Round trip\<close>

lemma table_support:
  assumes "length dat < 2 ^ 32"
  shows "(buildFreqTable dat c > 0) = (c \<in> set dat)"
proof -
  have "count_list dat c \<le> length dat"
    by (rule count_le_length)
  with assms have "count_list dat c < 2 ^ 32" by simp
  then have "unat (of_nat (count_list dat c) :: uint32_t) = count_list dat c"
    by (simp add: unat_of_nat)
  then have "(buildFreqTable dat c > 0) = (count_list dat c > 0)"
    by (simp add: buildFreqTable_count word_less_nat_alt)
  moreover have "(count_list dat c > 0) = (c \<in> set dat)"
    using count_list_0_iff[of dat c] by auto
  ultimately show ?thesis
    by simp
qed

lemma tree_of_buffer:
  assumes "dat \<noteq> []" "length dat < 2 ^ 32"
  defines "root \<equiv> buildHuffmanTree (buildFreqTable dat)"
  shows "root \<noteq> Null" "strict root" "distinct (leaf_syms root)" "set (leaf_syms root) = set dat"
proof -
  have s: "set (symbols_of (buildFreqTable dat)) = set dat"
    using table_support[OF assms(2)] by (auto simp: symbols_of_props(2))
  with assms(1) have ne: "symbols_of (buildFreqTable dat) \<noteq> []"
    by auto
  show "root \<noteq> Null" "strict root" "distinct (leaf_syms root)"
    unfolding root_def
    by (simp_all add: buildHuffmanTree_props[OF ne] leaf_syms_distinct(1)[OF ne])
  show "set (leaf_syms root) = set dat"
    unfolding root_def
    using leaf_syms_distinct(2)[OF ne] table_support[OF assms(2)] by auto
qed

lemma all_same: "set xs \<subseteq> {x} \<Longrightarrow> replicate (length xs) x = xs"
  by (induction xs) auto

lemma roundtrip_lemma:
  assumes "dat \<noteq> []" "length dat < 2 ^ 32"
    and "height (buildHuffmanTree (buildFreqTable dat)) \<le> 32"
    and "mem (length dat) = Some block"
  shows "\<exists>file. encode dat = Inr file \<and> decode verify mem file = Inr dat"
proof -
  define root where "root = buildHuffmanTree (buildFreqTable dat)"
  note t = tree_of_buffer[OF assms(1,2), folded root_def]
  from assms(2) have small: "length dat < 2 ^ 56"
    by (rule less_trans) simp
  from assms(1) small have n: "unat (of_nat (length dat) :: uint64_t) = length dat"
    "(of_nat (length dat) :: uint64_t) \<noteq> 0"
    by (auto simp: unat_of_nat word_of_nat_eq_0_iff dest: dvd_imp_le)
  show ?thesis
  proof (cases "is_leaf root")
    case True
    then obtain f s where root: "root = Node f s Null Null"
      by (cases root) (auto simp: is_leaf_def)
    with t(4) have same: "set dat \<subseteq> {s}" by simp
    have codes: "\<forall>d \<in> set dat. ce_len (make_codes root d) \<noteq> 0"
      using same by (auto simp: root make_codes_leaf)
    from t(1) have "symbols_of (buildFreqTable dat) \<noteq> []"
      by (simp add: root_def buildHuffmanTree_Null_iff)
    with codes assms(1) have "\<exists>file. encode dat = Inr file"
      unfolding encode_Inr_iff root_def by simp
    then obtain fl where e: "encode dat = Inr fl" by blast
    have "decompress mem r root (of_nat (length dat)) p = Some dat" for r p
      using n all_same[OF same] assms(4) by (simp add: root decompress_leaf)
    then have "decode verify mem fl = Inr dat"
      unfolding root_def by (intro decode_encode[OF e small]) simp
    with e show ?thesis by blast
  next
    case False
    have codes: "make_codes root d = entry_for (path_to root d)" if "d \<in> set dat" for d
      using that t(4) by (intro make_codes_internal[OF t(1) False t(2,3)]) simp
    have plen: "0 < length (path_to root d)" "length (path_to root d) \<le> 32" for d
      using path_to_nonempty[OF t(1) False, of d] length_path_to[of root d] assms(3)
      by (simp_all add: root_def)
    have ok: "\<forall>d \<in> set dat. ce_len (make_codes root d) \<noteq> 0"
    proof
      fix d assume d: "d \<in> set dat"
      from plen[of d] have "ce_len (entry_for (path_to root d)) \<noteq> 0"
        by (intro ce_len_entry_for) simp_all
      with codes[OF d] show "ce_len (make_codes root d) \<noteq> 0" by simp
    qed
    from t(1) have "symbols_of (buildFreqTable dat) \<noteq> []"
      by (simp add: root_def buildHuffmanTree_Null_iff)
    with ok assms(1) have "\<exists>file. encode dat = Inr file"
      unfolding encode_Inr_iff root_def by simp
    then obtain fl where e: "encode dat = Inr fl" by blast
    define payload where
      "payload = drop (HEADER_SIZE + 5 * unat (h_tree_size (parseHeader fl))) fl"
    define padding where "padding = h_padding_bits (parseHeader fl)"
    from encode_layout[OF e small]
    have "bytes_bits payload =
          concat (map (\<lambda>d. entry_bits (make_codes root d)) dat) @
          replicate (unat padding) False"
      by (simp add: payload_def padding_def root_def)
    moreover have "map (\<lambda>d. entry_bits (make_codes root d)) dat = map (path_to root) dat"
      using codes plen by (intro map_cong) (simp_all add: entry_bits_entry_for)
    ultimately have bits: "br_bits (bitReaderInit payload) =
          concat (map (path_to root) dat) @ replicate (unat padding) False"
      by simp
    have "decompress_loop (bitReaderInit payload) root root 0
            (map block [0..<unat (of_nat (length dat) :: uint64_t)]) (of_nat (length dat)) padding =
          Some (take 0 (map block [0..<unat (of_nat (length dat) :: uint64_t)]) @ dat)"
      using t(4) n(1) by (intro decode_stream[OF t(1) False t(2) _ _ bits]) simp_all
    with False t(1) n assms(4) have "decompress mem (bitReaderInit payload) root
            (of_nat (length dat)) padding = Some dat"
      by (auto simp: decompress_def is_leaf_def Let_def)
    then have "decode verify mem fl = Inr dat"
      unfolding root_def payload_def padding_def by (intro decode_encode[OF e small]) simp
    with e show ?thesis by blast
  qed
qed

text \<open>
  The encoder does not accept the empty buffer (\<^verbatim>\<open>if (file_size <= 0)\<close> in \<^verbatim>\<open>main\<close>),
  so there is no container to decode.
\<close>

theorem C1_counterexample: "roundtrip True (\<lambda>_. Some (\<lambda>_. 0)) [] \<noteq> Some []"
  by (simp add: roundtrip_def encode_def)

text \<open>
  C1, as amended: for every nonempty byte buffer of fewer than \<open>2^32\<close> bytes whose
  Huffman tree is at most 32 levels deep (a single byte, one repeated byte and buffers
  that use all 256 symbol values included), the encoder writes a container and decoding
  that container yields exactly the buffer, with or without checksum verification and
  whatever the decoder's output block held before. The one way for the decoder not
  to do so is that it cannot allocate its output block, which has the size of the
  buffer: then it stops with "Decompression failed".
\<close>

theorem C1_roundtrip:
  assumes "dat \<noteq> []" and "length dat < 2 ^ 32"
    and "height (buildHuffmanTree (buildFreqTable dat)) \<le> 32"
  shows "roundtrip verify mem dat = (if mem (length dat) = None then None else Some dat)"
proof (cases "mem (length dat)")
  case None
  from roundtrip_lemma[OF assms, of "\<lambda>_. Some (\<lambda>_. 0)" "\<lambda>_. 0" verify]
  obtain fl where e: "encode dat = Inr fl"
    by auto
  from assms(2) have "length dat < 2 ^ 56"
    by (rule less_trans) simp
  from decode_alloc_fail[where mem = mem and verify = verify, OF e this None] e None
  show ?thesis
    by (simp add: roundtrip_def)
next
  case (Some block)
  with roundtrip_lemma[where mem = mem and verify = verify, OF assms Some] show ?thesis
    by (auto simp: roundtrip_def)
qed

theorem C1_witness:
  "[97, 97, 97, 98, 98, 99 :: uint8_t] \<noteq> [] \<and>
   height (buildHuffmanTree (buildFreqTable [97, 97, 97, 98, 98, 99])) \<le> 32 \<and>
   roundtrip True (\<lambda>_. Some (\<lambda>_. 0)) [97, 97, 97, 98, 98, 99] = Some [97, 97, 97, 98, 98, 99]"
proof -
  have a: "[97, 97, 97, 98, 98, 99 :: uint8_t] \<noteq> []" "length [97, 97, 97, 98, 98, 99 :: uint8_t] < 2 ^ 32"
    by simp_all
  have b: "height (buildHuffmanTree (buildFreqTable [97, 97, 97, 98, 98, 99])) \<le> 32"
    by code_simp
  from C1_roundtrip[OF a b, of True "\<lambda>_. Some (\<lambda>_. 0)"] a b show ?thesis
    by simp
qed

subsection \<open>Prefix freedom, and where it ends\<close>

lemma path_prefix_free:
  assumes "strict t" "distinct (leaf_syms t)"
    and "s1 \<in> set (leaf_syms t)" "s2 \<in> set (leaf_syms t)"
    and "prefix (path_to t s1) (path_to t s2)"
  shows "s1 = s2"
  using assms
proof (induction t)
  case Null
  then show ?case by simp
next
  case (Node f c l r)
  show ?case
  proof (cases "l = Null \<and> r = Null")
    case True
    with Node.prems show ?thesis by simp
  next
    case False
    with Node.prems have d: "distinct (leaf_syms l)" "distinct (leaf_syms r)"
      "strict l" "strict r"
      by auto
    show ?thesis
    proof (cases "s1 \<in> set (leaf_syms l)")
      case True
      with Node.prems(5) False have "s2 \<in> set (leaf_syms l)"
        by (auto split: if_splits)
      with True Node.prems(5) False Node.IH(1)[OF d(3,1)] show ?thesis
        by simp
    next
      case s1: False
      with Node.prems(5) False have s2: "s2 \<notin> set (leaf_syms l)"
        by (auto split: if_splits)
      with s1 Node.prems(3,4) False have "s1 \<in> set (leaf_syms r)" "s2 \<in> set (leaf_syms r)"
        by auto
      with s1 s2 Node.prems(5) False Node.IH(2)[OF d(4,2)] show ?thesis
        by simp
    qed
  qed
qed

text \<open>
  As long as the tree is at most 32 levels deep the code table is prefix free: the
  32-bit accumulator of \<^verbatim>\<open>generateCodes\<close> holds every path in full.
\<close>

lemma codes_prefix_free:
  assumes "symbols_of tbl \<noteq> []" and "height (buildHuffmanTree tbl) \<le> 32"
    and "tbl s1 > 0" "tbl s2 > 0"
    and "prefix (entry_bits (generateCodes (buildHuffmanTree tbl) no_codes 0 0 s1))
                (entry_bits (generateCodes (buildHuffmanTree tbl) no_codes 0 0 s2))"
  shows "s1 = s2"
proof -
  let ?t = "buildHuffmanTree tbl"
  note t = buildHuffmanTree_props(1,2)[OF assms(1)] leaf_syms_distinct[OF assms(1)]
  have codes: "generateCodes ?t no_codes 0 0 s = entry_for (path_to ?t s)"
    if "s \<in> set (leaf_syms ?t)" for s
    using generateCodes_eq[OF t(1,2,3), of no_codes "[]"] that by simp
  have bits: "entry_bits (entry_for (path_to ?t s)) = path_to ?t s" for s
    using length_path_to[of ?t s] assms(2) by (intro entry_bits_entry_for) simp
  from assms(3,4) t(4) have s: "s1 \<in> set (leaf_syms ?t)" "s2 \<in> set (leaf_syms ?t)"
    by simp_all
  from assms(5) have "prefix (path_to ?t s1) (path_to ?t s2)"
    by (simp add: codes[OF s(1)] codes[OF s(2)] bits)
  with path_prefix_free[OF t(2,3) s] show ?thesis .
qed

lemma fib_tree:
  "buildHuffmanTree fib_table =
     Node 14930351 0 (Node 5702887 34 Null Null) (Node 9227464 0 (Node 3524578 33 Null Null)
     (Node 5702886 0 (Node 2178309 32 Null Null) (Node 3524577 0 (Node 1346269 31 Null Null)
     (Node 2178308 0 (Node 832040 30 Null Null) (Node 1346268 0 (Node 514229 29 Null Null)
     (Node 832039 0 (Node 317811 28 Null Null) (Node 514228 0 (Node 196418 27 Null Null)
     (Node 317810 0 (Node 121393 26 Null Null) (Node 196417 0 (Node 75025 25 Null Null) (Node
     121392 0 (Node 46368 24 Null Null) (Node 75024 0 (Node 28657 23 Null Null) (Node 46367 0
     (Node 17711 22 Null Null) (Node 28656 0 (Node 10946 21 Null Null) (Node 17710 0 (Node
     6765 20 Null Null) (Node 10945 0 (Node 4181 19 Null Null) (Node 6764 0 (Node 2584 18
     Null Null) (Node 4180 0 (Node 1597 17 Null Null) (Node 2583 0 (Node 987 16 Null Null)
     (Node 1596 0 (Node 610 15 Null Null) (Node 986 0 (Node 377 14 Null Null) (Node 609 0
     (Node 233 13 Null Null) (Node 376 0 (Node 144 12 Null Null) (Node 232 0 (Node 89 11 Null
     Null) (Node 143 0 (Node 55 10 Null Null) (Node 88 0 (Node 34 9 Null Null) (Node 54 0
     (Node 21 8 Null Null) (Node 33 0 (Node 13 7 Null Null) (Node 20 0 (Node 8 6 Null Null)
     (Node 12 0 (Node 5 5 Null Null) (Node 7 0 (Node 3 4 Null Null) (Node 4 0 (Node 2 3 Null
     Null) (Node 2 0 (Node 1 1 Null Null) (Node 1 2 Null
     Null)))))))))))))))))))))))))))))))))"
  by code_simp

text \<open>
  C5 fails on the code for \<open>fib_table\<close>: the tree is 33 levels deep, the leaf of
  byte 1 lies at the end of the path \<open>1^32 0\<close>, and \<^verbatim>\<open>generateCodes\<close> stores for it
  the 33 bits \<open>0 1^31 0\<close>, of which the 1-bit code \<open>0\<close> of byte 34 is a prefix. The
  first step of the path has been shifted out of the 32-bit accumulator, which holds
  \<open>1^31 0\<close>; the first bit stored is \<^verbatim>\<open>code >> 32\<close>, bit 0 of the accumulator on x86-64
  (and also 0 where an oversized shift gives 0).
\<close>

theorem C5_deep_tree_codes_collide:
  "height (buildHuffmanTree fib_table) = 33 \<and>
   path_to (buildHuffmanTree fib_table) 1 = replicate 32 True @ [False] \<and>
   entry_bits (generateCodes (buildHuffmanTree fib_table) no_codes 0 0 1) =
     False # replicate 31 True @ [False] \<and>
   entry_bits (generateCodes (buildHuffmanTree fib_table) no_codes 0 0 34) = [False] \<and>
   prefix (entry_bits (generateCodes (buildHuffmanTree fib_table) no_codes 0 0 34))
          (entry_bits (generateCodes (buildHuffmanTree fib_table) no_codes 0 0 1))"
proof -
  let ?t = "buildHuffmanTree fib_table"
  have ne: "symbols_of fib_table \<noteq> []"
  proof
    assume "symbols_of fib_table = []"
    then have "?t = Null" by (rule buildHuffmanTree_Null)
    then show False by (simp add: fib_tree)
  qed
  note t = buildHuffmanTree_props(1,2)[OF ne] leaf_syms_distinct[OF ne]
  have h: "height ?t = 33"
    unfolding fib_tree by simp
  have p1: "path_to ?t 1 = replicate 32 True @ [False]"
    unfolding fib_tree by code_simp
  have p34: "path_to ?t 34 = [False]"
    unfolding fib_tree by simp
  have s: "1 \<in> set (leaf_syms ?t)" "34 \<in> set (leaf_syms ?t)"
    unfolding t(4) by (simp_all add: fib_table_def)
  have codes: "generateCodes ?t no_codes 0 0 s' = entry_for (path_to ?t s')"
    if "s' \<in> set (leaf_syms ?t)" for s'
    using generateCodes_eq[OF t(1,2,3), of no_codes "[]"] that by simp
  have c1: "entry_bits (generateCodes ?t no_codes 0 0 1) = False # replicate 31 True @ [False]"
  proof -
    have "length (replicate 32 True @ [False]) < 256"
      by simp
    from entry_bits_entry_for_any[OF this]
    have "entry_bits (entry_for (replicate 32 True @ [False])) =
          map (\<lambda>b. (replicate 32 True @ [False]) ! (32 - (32 - b) mod 32)) [0..<33]"
      by simp
    also have "\<dots> = False # replicate 31 True @ [False]"
      by code_simp
    finally show ?thesis
      unfolding codes[OF s(1)] p1 .
  qed
  have c34: "entry_bits (generateCodes ?t no_codes 0 0 34) = [False]"
    unfolding codes[OF s(2)] p34
    by (subst entry_bits_entry_for) simp_all
  have "prefix (entry_bits (generateCodes ?t no_codes 0 0 34))
               (entry_bits (generateCodes ?t no_codes 0 0 1))"
    unfolding c1 c34 by simp
  with h p1 c1 c34 show ?thesis
    by blast
qed

subsection \<open>The first variant's tree\<close>

lemma heap_good_nth: "heap_good h \<Longrightarrow> i < mh_size h \<Longrightarrow> good (mh_array h ! i)"
  by (auto simp: heap_good_def list_all_length)

lemma heap_goodI:
  "mh_size h \<le> length (mh_array h) \<Longrightarrow> (\<And>i. i < mh_size h \<Longrightarrow> good (mh_array h ! i)) \<Longrightarrow>
   heap_good h"
  by (auto simp: heap_good_def list_all_length)

lemma smallest_of_bound: "smallest_of h idx \<noteq> idx \<Longrightarrow> smallest_of h idx < mh_size h \<and> idx < mh_size h"
  by (auto simp: smallest_of_def Let_def split: if_splits)

lemma minHeapify_props:
  "heap_good h \<Longrightarrow>
   heap_good (minHeapify h idx) \<and> mh_size (minHeapify h idx) = mh_size h \<and>
   length (mh_array (minHeapify h idx)) = length (mh_array h)"
proof (induction h idx rule: minHeapify.induct)
  case (1 h idx)
  show ?case
  proof (cases "smallest_of h idx \<noteq> idx")
    case False
    then have "minHeapify h idx = h"
      by (subst minHeapify.simps) simp
    with "1.prems" show ?thesis by simp
  next
    case True
    let ?s = "smallest_of h idx"
    let ?h1 = "h\<lparr>mh_array := swapNodes (mh_array h) ?s idx\<rparr>"
    from smallest_of_bound[OF True] have b: "?s < mh_size h" "idx < mh_size h"
      by simp_all
    have "heap_good ?h1"
    proof (rule heap_goodI)
      show "mh_size ?h1 \<le> length (mh_array ?h1)"
        using "1.prems" by (simp add: heap_good_def swapNodes_def)
    next
      fix i assume "i < mh_size ?h1"
      then have i: "i < mh_size h" by simp
      from "1.prems" have len: "mh_size h \<le> length (mh_array h)"
        by (simp add: heap_good_def)
      show "good (mh_array ?h1 ! i)"
        using heap_good_nth[OF "1.prems" i] heap_good_nth[OF "1.prems" b(1)]
          heap_good_nth[OF "1.prems" b(2)] b i len
        by (auto simp: swapNodes_def nth_list_update)
    qed
    from "1.IH"[OF True this] have "heap_good (minHeapify ?h1 ?s) \<and>
        mh_size (minHeapify ?h1 ?s) = mh_size h \<and>
        length (mh_array (minHeapify ?h1 ?s)) = length (mh_array h)"
      by (simp add: swapNodes_def)
    moreover have "minHeapify h idx = minHeapify ?h1 ?s"
      using True by (subst minHeapify.simps) simp
    ultimately show ?thesis by simp
  qed
qed

lemma extractMin_props:
  assumes "heap_good h" "0 < mh_size h" "extractMin h = (x, h')"
  shows "good x" "heap_good h'" "mh_size h' = mh_size h - 1"
    "length (mh_array h') = length (mh_array h)"
proof -
  let ?h2 = "h\<lparr>mh_array := (mh_array h)[0 := mh_array h ! (mh_size h - 1)],
               mh_size := mh_size h - 1\<rparr>"
  from assms(3) have x: "x = mh_array h ! 0" and h': "h' = minHeapify ?h2 0"
    by (simp_all add: extractMin_def Let_def)
  from assms(1) have len: "mh_size h \<le> length (mh_array h)"
    by (simp add: heap_good_def)
  show "good x"
    unfolding x by (rule heap_good_nth[OF assms(1,2)])
  have g2: "heap_good ?h2"
  proof (rule heap_goodI)
    show "mh_size ?h2 \<le> length (mh_array ?h2)"
      using len by simp
  next
    fix i assume "i < mh_size ?h2"
    then have i: "i < mh_size h - 1" by simp
    then have "i < mh_size h" "mh_size h - 1 < mh_size h" by simp_all
    then have "good (mh_array h ! i)" "good (mh_array h ! (mh_size h - 1))"
      by (simp_all only: heap_good_nth[OF assms(1)])
    moreover from len i have "0 < length (mh_array h)" by arith
    ultimately show "good (mh_array ?h2 ! i)"
      by (cases "i = 0") simp_all
  qed
  from minHeapify_props[OF g2, of 0]
  show "heap_good h'" "mh_size h' = mh_size h - 1" "length (mh_array h') = length (mh_array h)"
    unfolding h' by simp_all
qed

lemma sift_up_props:
  "i \<le> m \<Longrightarrow> m < length arr \<Longrightarrow> good nd \<Longrightarrow> (\<And>j. j \<le> m \<Longrightarrow> j \<noteq> i \<Longrightarrow> good (arr ! j)) \<Longrightarrow>
   length (sift_up arr nd i) = length arr \<and> (\<forall>j \<le> m. good (sift_up arr nd i ! j))"
proof (induction arr nd i rule: sift_up.induct)
  case (1 arr nd i)
  show ?case
  proof (cases "i \<noteq> 0 \<and> freq nd < freq (arr ! ((i - 1) div 2))")
    case False
    then have "sift_up arr nd i = arr[i := nd]"
      by (subst sift_up.simps) auto
    with "1.prems" show ?thesis
      by (auto simp: nth_list_update)
  next
    case True
    let ?p = "(i - 1) div 2"
    let ?a1 = "arr[i := arr ! ?p]"
    from True have p: "?p < i" by auto
    have "length (sift_up ?a1 nd ?p) = length ?a1 \<and> (\<forall>j \<le> m. good (sift_up ?a1 nd ?p ! j))"
    proof (rule "1.IH"[OF True])
      show "?p \<le> m" using p "1.prems"(1) by simp
      show "m < length ?a1" using "1.prems"(2) by simp
      show "good nd" by (rule "1.prems"(3))
      fix j assume j: "j \<le> m" "j \<noteq> ?p"
      show "good (?a1 ! j)"
      proof (cases "j = i")
        case True
        with p "1.prems"(1,2) "1.prems"(4)[of ?p] show ?thesis by simp
      next
        case False
        with j "1.prems"(4)[of j] show ?thesis by simp
      qed
    qed
    moreover have "sift_up arr nd i = sift_up ?a1 nd ?p"
      using True by (subst sift_up.simps) simp
    ultimately show ?thesis by simp
  qed
qed

lemma insertMinHeap_props:
  assumes "heap_good h" "mh_size h < length (mh_array h)" "good nd"
  shows "heap_good (insertMinHeap h nd)" "mh_size (insertMinHeap h nd) = mh_size h + 1"
    "length (mh_array (insertMinHeap h nd)) = length (mh_array h)"
proof -
  have s: "length (sift_up (mh_array h) nd (mh_size h)) = length (mh_array h) \<and>
           (\<forall>j \<le> mh_size h. good (sift_up (mh_array h) nd (mh_size h) ! j))"
    using assms heap_good_nth[OF assms(1)] by (intro sift_up_props) auto
  show "mh_size (insertMinHeap h nd) = mh_size h + 1"
    "length (mh_array (insertMinHeap h nd)) = length (mh_array h)"
    using s by (simp_all add: insertMinHeap_def Let_def)
  show "heap_good (insertMinHeap h nd)"
    using s assms(2) by (intro heap_goodI) (simp_all add: insertMinHeap_def Let_def)
qed

lemma merge_step_props:
  assumes "heap_good h" "2 \<le> mh_size h"
  shows "heap_good (merge_step h)" "mh_size (merge_step h) = mh_size h - 1"
    "length (mh_array (merge_step h)) = length (mh_array h)"
proof -
  obtain l h1 where e1: "extractMin h = (l, h1)" by fastforce
  obtain r h2 where e2: "extractMin h1 = (r, h2)" by fastforce
  from assms(2) have "0 < mh_size h" by simp
  note p1 = extractMin_props[OF assms(1) this e1]
  from assms(2) p1(3) have "0 < mh_size h1" by simp
  note p2 = extractMin_props[OF p1(2) this e2]
  have top: "good (Node (freq l + freq r) 36 l r)"
    using p1(1) p2(1) by (simp add: good_def)
  from assms(1) have "mh_size h \<le> length (mh_array h)"
    by (simp add: heap_good_def)
  with assms(2) p1(3,4) p2(3,4) have room: "mh_size h2 < length (mh_array h2)"
    by simp
  note p3 = insertMinHeap_props[OF p2(2) room top]
  have ms: "merge_step h = insertMinHeap h2 (Node (freq l + freq r) 36 l r)"
    by (simp add: merge_step_def e1 e2)
  show "heap_good (merge_step h)" "mh_size (merge_step h) = mh_size h - 1"
    "length (mh_array (merge_step h)) = length (mh_array h)"
    unfolding ms using p1 p2 p3 assms(2) by simp_all
qed

lemma merge_all_props:
  "heap_good h \<Longrightarrow> 1 \<le> mh_size h \<Longrightarrow> heap_good (merge_all h) \<and> mh_size (merge_all h) = 1"
proof (induction h rule: merge_all.induct)
  case (1 h)
  show ?case
  proof (cases "mh_size h \<noteq> 1")
    case False
    then have "merge_all h = h" by (subst merge_all.simps) simp
    with False "1.prems" show ?thesis by simp
  next
    case True
    with "1.prems" have two: "2 \<le> mh_size h" by simp
    note ms = merge_step_props[OF "1.prems"(1) two]
    from ms(2) two have "1 \<le> mh_size (merge_step h)" by simp
    from "1.IH"[OF True ms(1) this] have "heap_good (merge_all (merge_step h)) \<and>
        mh_size (merge_all (merge_step h)) = 1" .
    moreover have "merge_all h = merge_all (merge_step h)"
      using True by (subst merge_all.simps) simp
    ultimately show ?thesis by simp
  qed
qed

lemma buildMinHeap_props:
  assumes "heap_good h"
  shows "heap_good (buildMinHeap h)" "mh_size (buildMinHeap h) = mh_size h"
proof -
  have "heap_good (fold (\<lambda>i hp. minHeapify hp i) js h) \<and>
        mh_size (fold (\<lambda>i hp. minHeapify hp i) js h) = mh_size h" for js
    using assms
  proof (induction js arbitrary: h)
    case Nil
    then show ?case by simp
  next
    case (Cons j js)
    from minHeapify_props[OF Cons.prems, of j] Cons.IH[of "minHeapify h j"] show ?case
      by simp
  qed
  then show "heap_good (buildMinHeap h)" "mh_size (buildMinHeap h) = mh_size h"
    unfolding buildMinHeap_def Let_def by blast+
qed

lemma fill_leaf_prefix:
  "k \<le> 256 \<Longrightarrow>
   length (mh_array (fold (fill_leaf tbl) [0..<k] (createMinHeap 256))) = 256 \<and>
   mh_size (fold (fill_leaf tbl) [0..<k] (createMinHeap 256)) \<le> k \<and>
   take (mh_size (fold (fill_leaf tbl) [0..<k] (createMinHeap 256)))
        (mh_array (fold (fill_leaf tbl) [0..<k] (createMinHeap 256))) =
     map (leaf_of tbl) (filter (\<lambda>c. tbl c > 0) (map of_nat [0..<k]))"
proof (induction k)
  case 0
  then show ?case by (simp add: createMinHeap_def)
next
  case (Suc k)
  let ?h = "fold (fill_leaf tbl) [0..<k] (createMinHeap 256)"
  from Suc have ih: "length (mh_array ?h) = 256" "mh_size ?h \<le> k"
    "take (mh_size ?h) (mh_array ?h) =
       map (leaf_of tbl) (filter (\<lambda>c. tbl c > 0) (map of_nat [0..<k]))"
    by simp_all
  have step: "fold (fill_leaf tbl) [0..<Suc k] (createMinHeap 256) = fill_leaf tbl k ?h"
    by simp
  show ?case
  proof (cases "tbl (of_nat k) > 0")
    case False
    with ih show ?thesis
      unfolding step by (simp add: fill_leaf_def)
  next
    case True
    from ih(1,2) Suc.prems have lt: "mh_size ?h < length (mh_array ?h)"
      by simp
    have "take (Suc (mh_size ?h)) ((mh_array ?h)[mh_size ?h := leaf_of tbl (of_nat k)]) =
          take (mh_size ?h) (mh_array ?h) @ [leaf_of tbl (of_nat k)]"
      using lt by (simp add: take_Suc_conv_app_nth)
    with True ih show ?thesis
      unfolding step by (simp add: fill_leaf_def newNode00_def leaf_of_def)
  qed
qed

lemma fill_leaf_props:
  "length (mh_array (fold (fill_leaf tbl) [0..<256] (createMinHeap 256))) = 256"
  "mh_size (fold (fill_leaf tbl) [0..<256] (createMinHeap 256)) = length (symbols_of tbl)"
  "take (mh_size (fold (fill_leaf tbl) [0..<256] (createMinHeap 256)))
        (mh_array (fold (fill_leaf tbl) [0..<256] (createMinHeap 256))) =
     map (leaf_of tbl) (symbols_of tbl)"
  "heap_good (fold (fill_leaf tbl) [0..<256] (createMinHeap 256))"
proof -
  let ?h = "fold (fill_leaf tbl) [0..<256] (createMinHeap 256)"
  from fill_leaf_prefix[of 256 tbl] have p: "length (mh_array ?h) = 256" "mh_size ?h \<le> 256"
    "take (mh_size ?h) (mh_array ?h) = map (leaf_of tbl) (symbols_of tbl)"
    by (simp_all add: symbols_of_def MAXN_def)
  show "length (mh_array ?h) = 256" by (rule p(1))
  show tk: "take (mh_size ?h) (mh_array ?h) = map (leaf_of tbl) (symbols_of tbl)" by (rule p(3))
  from arg_cong[OF tk, of length] p(1,2)
  show "mh_size ?h = length (symbols_of tbl)"
    by simp
  show "heap_good ?h"
    unfolding heap_good_def tk using p(1,2)
    by (simp add: list_all_iff good_def leaf_of_def)
qed

lemma buildHuffmanTree00_single:
  assumes "symbols_of tbl = [s]"
  shows "buildHuffmanTree00 tbl = Node (tbl s) 36 (Node (tbl s) s Null Null) Null"
proof -
  let ?h = "fold (fill_leaf tbl) [0..<256] (createMinHeap 256)"
  from fill_leaf_props(2,3)[of tbl] assms
  have sz: "mh_size ?h = 1" and tk: "take 1 (mh_array ?h) = [leaf_of tbl s]"
    by simp_all
  from fill_leaf_props(1)[of tbl] have "mh_array ?h \<noteq> []"
    by auto
  with tk have "mh_array ?h ! 0 = leaf_of tbl s"
    by (cases "mh_array ?h") simp_all
  with sz show ?thesis
    by (simp add: buildHuffmanTree00_def Let_def leaf_of_def)
qed

lemma buildHuffmanTree00_strict:
  assumes "length (symbols_of tbl) \<noteq> 1"
  shows "buildHuffmanTree00 tbl \<noteq> Null \<and> strict (buildHuffmanTree00 tbl)"
proof (cases "symbols_of tbl = []")
  case True
  with fill_leaf_props(2)[of tbl] show ?thesis
    by (simp add: buildHuffmanTree00_def Let_def newNode00_def)
next
  case False
  let ?h = "fold (fill_leaf tbl) [0..<256] (createMinHeap 256)"
  from False have "length (symbols_of tbl) \<noteq> 0"
    by simp
  with assms fill_leaf_props(2)[of tbl] have sz: "2 \<le> mh_size ?h"
    by arith
  note b = buildMinHeap_props[OF fill_leaf_props(4)[of tbl]]
  from sz b(2) have "1 \<le> mh_size (buildMinHeap ?h)"
    by simp
  from merge_all_props[OF b(1) this]
  have m: "heap_good (merge_all (buildMinHeap ?h))" "0 < mh_size (merge_all (buildMinHeap ?h))"
    by simp_all
  obtain x h' where e: "extractMin (merge_all (buildMinHeap ?h)) = (x, h')"
    by fastforce
  from extractMin_props(1)[OF m e] have "good x" .
  moreover from sz e have "buildHuffmanTree00 tbl = x"
    by (simp add: buildHuffmanTree00_def Let_def)
  ultimately show ?thesis
    by (simp add: good_def)
qed

text \<open>
  C6 (counterexample): \<^verbatim>\<open>buildHuffmanTree\<close> of the first variant, for the table that
  counts the byte 97 three times and nothing else, returns a root whose only child
  is the leaf on the left: the root has one child, the tree is not strict.
\<close>

theorem C6_counterexample:
  "buildHuffmanTree00 ((\<lambda>_. 0)(97 := 3)) = Node 3 36 (Node 3 97 Null Null) Null \<and>
   \<not> strict (buildHuffmanTree00 ((\<lambda>_. 0)(97 := 3)))"
proof -
  have "symbols_of ((\<lambda>_. 0)(97 := 3)) = [97]"
    by (rule symbols_of_single) simp_all
  from buildHuffmanTree00_single[OF this] show ?thesis
    by simp
qed

text \<open>
  C6 (amended): for every frequency table the tree \<^verbatim>\<open>buildHuffmanTree\<close> of huffman-01
  returns is strict (a null pointer for the table of zeros, a bare leaf for one
  symbol), and the tree \<^verbatim>\<open>buildHuffmanTree\<close> of huffman-00 returns is strict unless
  exactly one symbol has a nonzero count; then it is a root \<^verbatim>\<open>'$'\<close> with that
  symbol's leaf as its left child and no right child.
\<close>

theorem C6_strict_unless_single:
  "strict (buildHuffmanTree tbl) \<and>
   (length (symbols_of tbl) \<noteq> 1 \<longrightarrow> strict (buildHuffmanTree00 tbl)) \<and>
   (\<forall>s. symbols_of tbl = [s] \<longrightarrow>
        buildHuffmanTree00 tbl = Node (tbl s) 36 (Node (tbl s) s Null Null) Null)"
  using strict_buildHuffmanTree buildHuffmanTree00_strict buildHuffmanTree00_single
  by blast

theorem C6_witness:
  "length (symbols_of ((\<lambda>_. 0)(97 := 3, 98 := 2, 99 := 1))) \<noteq> 1 \<and>
   strict (buildHuffmanTree ((\<lambda>_. 0)(97 := 3, 98 := 2, 99 := 1))) \<and>
   strict (buildHuffmanTree00 ((\<lambda>_. 0)(97 := 3, 98 := 2, 99 := 1))) \<and>
   symbols_of ((\<lambda>_. 0)(98 := 2)) = [98] \<and>
   buildHuffmanTree00 ((\<lambda>_. 0)(98 := 2)) = Node 2 36 (Node 2 98 Null Null) Null"
proof -
  have a: "length (symbols_of ((\<lambda>_. 0)(97 := 3, 98 := 2, 99 := 1))) \<noteq> 1"
    by code_simp
  have b: "symbols_of ((\<lambda>_. 0)(98 := 2)) = [98]"
    by (rule symbols_of_single) simp_all
  from C6_strict_unless_single[of "(\<lambda>_. 0)(97 := 3, 98 := 2, 99 := 1)"]
    C6_strict_unless_single[of "(\<lambda>_. 0)(98 := 2)"] a b
  show ?thesis
    by simp
qed

subsection \<open>A walk that reaches a null pointer\<close>

lemma take_drop_concat:
  "\<forall>x \<in> set xs. length (f x) = n \<Longrightarrow> i < length xs \<Longrightarrow>
   take n (drop (n * i) (concat (map f xs))) = f (xs ! i)"
proof (induction xs arbitrary: i)
  case Nil
  then show ?case by simp
next
  case (Cons x xs)
  show ?case
  proof (cases i)
    case 0
    with Cons.prems show ?thesis by simp
  next
    case (Suc j)
    with Cons.prems Cons.IH[of j] show ?thesis by simp
  qed
qed

lemma length_concat_fixed:
  "\<forall>x \<in> set xs. length (f x) = n \<Longrightarrow> length (concat (map f xs)) = n * length xs"
  by (induction xs) simp_all

lemma read_table00_header00:
  "length (header00 sz tbl) = 1032"
  "from_le (take 8 (header00 sz tbl @ payload)) = sz"
  "read_table00 (take 1024 (drop 8 (header00 sz tbl @ payload))) = tbl"
  "drop 1032 (header00 sz tbl @ payload) = payload"
proof -
  let ?t = "concat (map (\<lambda>i. le_bytes 4 (tbl (of_nat i))) [0..<256])"
  have len: "length ?t = 1024"
    by (subst length_concat_fixed[where n = 4]) simp_all
  then show l: "length (header00 sz tbl) = 1032"
    by (simp add: header00_def)
  then show "drop 1032 (header00 sz tbl @ payload) = payload"
    by simp
  show "from_le (take 8 (header00 sz tbl @ payload)) = sz"
    by (simp add: header00_def from_le_le_bytes_id)
  have t: "take 1024 (drop 8 (header00 sz tbl @ payload)) = ?t"
    using len by (simp add: header00_def)
  have "read_table00 ?t c = tbl c" for c
  proof -
    have c: "unat c < 256"
      using unsigned_less[of c, where 'a = nat] by simp
    then have "take 4 (drop (4 * unat c) ?t) = le_bytes 4 (tbl (of_nat ([0..<256] ! unat c)))"
      by (intro take_drop_concat) simp_all
    with c show ?thesis
      by (simp add: read_table00_def from_le_le_bytes_id)
  qed
  with t show "read_table00 (take 1024 (drop 8 (header00 sz tbl @ payload))) = tbl"
    by (simp add: fun_eq_iff)
qed

lemma decodeFile00_header00:
  "decodeFile00 (header00 sz tbl @ payload) =
     (if buildHuffmanTree00 tbl = Null \<or>
         (left (buildHuffmanTree00 tbl) = Null \<and> right (buildHuffmanTree00 tbl) = Null \<and>
          freq (buildHuffmanTree00 tbl) = 0)
      then (Returned,
            Some (if sint sz > 0 \<and> buildHuffmanTree00 tbl \<noteq> Null \<and> freq (buildHuffmanTree00 tbl) > 0
                  then replicate (nat (sint sz)) (ch (buildHuffmanTree00 tbl)) else []))
      else case decode_bytes00 payload (buildHuffmanTree00 tbl) (buildHuffmanTree00 tbl) 0 (sint sz) [] of
             (True, out) \<Rightarrow> (ReturnedAfterError, Some out)
           | (False, out) \<Rightarrow> (Returned, Some out))"
proof -
  have a: "\<not> length (header00 sz tbl @ payload) < 8"
    "\<not> length (drop 8 (header00 sz tbl @ payload)) < 1024"
    by (simp_all add: read_table00_header00(1))
  show ?thesis
    by (simp only: decodeFile00_def a if_False Let_def read_table00_header00(2,3,4))
qed

text \<open>
  C9: a walk that reaches a null pointer is meant to be a fatal error with no output.
  \<^verbatim>\<open>decompress\<close> of huffman-01 does that: it frees the buffer and returns a null
  pointer, and \<^verbatim>\<open>main\<close> stops before it creates the output file. \<^verbatim>\<open>decodeFile\<close> of
  the first variant does not: at \<open>stray_bit_file\<close> the first payload bit decodes a
  byte 97, which is written to the output file, the second bit leads to the missing
  right child of the root, and \<^verbatim>\<open>decodeFile\<close> prints its message, closes the output
  file with that byte in it and returns, so that \<^verbatim>\<open>main\<close> reports "Decoding complete."
  and returns 0. On the same tree and payload \<^verbatim>\<open>decompress\<close> of huffman-01 returns
  the null pointer.
\<close>

theorem C9_null_child_leaves_output:
  "buildHuffmanTree00 ((\<lambda>_. 0)(97 := 2)) = Node 2 36 (Node 2 97 Null Null) Null \<and>
   decodeFile00 stray_bit_file = (ReturnedAfterError, Some [97]) \<and>
   decompress (\<lambda>_. Some (\<lambda>_. 0)) (bitReaderInit [64]) (buildHuffmanTree00 ((\<lambda>_. 0)(97 := 2))) 2 0 = None"
proof -
  let ?tbl = "(\<lambda>_. 0)(97 := 2) :: freq_table"
  let ?root = "Node 2 36 (Node 2 97 Null Null) Null"
  have "symbols_of ?tbl = [97]"
    by (rule symbols_of_single) simp_all
  from buildHuffmanTree00_single[OF this] have root: "buildHuffmanTree00 ?tbl = ?root"
    by simp
  have walk: "decode_bytes00 [64] ?root ?root 0 2 [] = (True, [97])"
    by code_simp
  have two: "sint (2 :: uint64_t) = 2"
    by simp
  have "decodeFile00 stray_bit_file = (ReturnedAfterError, Some [97])"
    unfolding stray_bit_file_def decodeFile00_header00 root
    by (simp only: two walk) simp
  moreover have "decompress (\<lambda>_. Some (\<lambda>_. 0)) (bitReaderInit [64]) ?root 2 0 = None"
    by code_simp
  ultimately show ?thesis
    using root by simp
qed

end
